theory Spec2Isabelle
  imports Main "HOL-Library.Word" "HOL-Library.Multiset" "HOL-Library.Monad_Syntax"
    "HOL-Library.Code_Target_Nat"
begin

unbundle bit_operations_syntax

section \<open>Smoothsort (smoothsort.h): the embedding\<close>

text \<open>
  Conventions of the embedding.
  \<^item> The sequence \<open>[begin, end)\<close> is a list; an iterator is its offset from \<open>begin\<close>
    (a \<open>nat\<close>), so \<open>std::distance(begin, itr)\<close> is \<open>itr\<close> itself and the parameter
    \<open>begin\<close> is left out.
  \<^item> \<open>size_t\<close> is the 32-bit type the header is written for (its table holds "all
    the Leonardo numbers below 2^32"); values are \<open>nat\<close>, and the two places where an
    unguarded \<open>size_t\<close> subtraction can wrap have the wrap-around written out. Offsets
    and lengths themselves are not bounded, so the sequences a build with a wider
    \<open>size_t\<close> can pass are values of the model too.
  \<^item> Every function returns an \<open>option\<close>: \<open>None\<close> stands for a run without a defined
    result, that is a read outside the table \<open>kLeonardoNumbers\<close>, an iterator moved or
    read outside the sequence, or a loop that never exits.
\<close>

definition kNumLeonardoNumbers :: nat where
  "kNumLeonardoNumbers = 46"

definition kLeonardoNumbers :: "nat list" where
  "kLeonardoNumbers =
    [1, 1, 3, 5, 9, 15, 25, 41, 67, 109, 177, 287, 465, 753,
     1219, 1973, 3193, 5167, 8361, 13529, 21891, 35421, 57313, 92735,
     150049, 242785, 392835, 635621, 1028457, 1664079, 2692537,
     4356617, 7049155, 11405773, 18454929, 29860703, 48315633, 78176337,
     126491971, 204668309, 331160281, 535828591, 866988873, 1402817465,
     2269806339, 3672623805]"

text \<open>\<open>kLeonardoNumbers[k]\<close>: a read of the table, undefined outside it.\<close>

definition leonardo_at :: "nat \<Rightarrow> nat option" where
  "leonardo_at k = (if k < kNumLeonardoNumbers then Some (kLeonardoNumbers ! k) else None)"

text \<open>\<open>struct HeapShape\<close>: the bitvector \<open>std::bitset<46>\<close> and the shift amount.\<close>

record HeapShape =
  trees :: "46 word"
  smallestTreeSize :: nat

text \<open>\<open>size_t\<close> arithmetic where the source does not guard it.\<close>

definition size_t_sub :: "nat \<Rightarrow> nat \<Rightarrow> nat" where
  "size_t_sub x y = (if y \<le> x then x - y else x + 2 ^ 32 - y)"

text \<open>\<open>*itr\<close> and \<open>std::iter_swap\<close>.\<close>

definition deref :: "'a list \<Rightarrow> nat \<Rightarrow> 'a option" where
  "deref a i = (if i < length a then Some (a ! i) else None)"

definition iter_swap :: "'a list \<Rightarrow> nat \<Rightarrow> nat \<Rightarrow> 'a list" where
  "iter_swap a i j = a[i := a ! j, j := a ! i]"

text \<open>\<open>itr - d\<close>: an iterator moved before \<open>begin\<close> has no defined value.\<close>

definition iter_minus :: "nat \<Rightarrow> nat \<Rightarrow> nat option" where
  "iter_minus itr d = (if itr < d then None else Some (itr - d))"

definition SecondChild :: "nat \<Rightarrow> nat option" where
  "SecondChild root = iter_minus root 1"

definition FirstChild :: "nat \<Rightarrow> nat \<Rightarrow> nat option" where
  "FirstChild root sz =
     do {
       second \<leftarrow> SecondChild root;
       l \<leftarrow> leonardo_at (size_t_sub sz 2);
       iter_minus second l
     }"

definition LargerChild :: "('a \<Rightarrow> 'a \<Rightarrow> bool) \<Rightarrow> 'a list \<Rightarrow> nat \<Rightarrow> nat \<Rightarrow> nat option" where
  "LargerChild cmp a root sz =
     do {
       first \<leftarrow> FirstChild root sz;
       second \<leftarrow> SecondChild root;
       fv \<leftarrow> deref a first;
       sv \<leftarrow> deref a second;
       Some (if cmp fv sv then second else first)
     }"

function RebalanceSingleHeap ::
  "('a \<Rightarrow> 'a \<Rightarrow> bool) \<Rightarrow> 'a list \<Rightarrow> nat \<Rightarrow> nat \<Rightarrow> 'a list option" where
  "RebalanceSingleHeap cmp a root sz =
     (if sz > 1 then
        do {
          first \<leftarrow> FirstChild root sz;
          second \<leftarrow> SecondChild root;
          fv \<leftarrow> deref a first;
          sv \<leftarrow> deref a second;
          let largerChild = (if cmp fv sv then second else first);
          let childSize = (if cmp fv sv then sz - 2 else sz - 1);
          rv \<leftarrow> deref a root;
          lv \<leftarrow> deref a largerChild;
          if \<not> cmp rv lv then Some a
          else RebalanceSingleHeap cmp (iter_swap a root largerChild) largerChild childSize
        }
      else Some a)"
  by pat_completeness auto
termination
  by (relation "measure (\<lambda>(cmp, a, root, sz). sz)") auto

text \<open>
  The inner loop of \<open>LeonardoHeapRectify\<close>:
  \<^verbatim>\<open>do { shape.trees >>= 1; ++shape.smallestTreeSize; } while (!shape.trees[0]);\<close>
  It never exits once the bitvector is empty; not returning is the value \<open>None\<close>.
\<close>

partial_function (option) shift_to_previous_tree :: "HeapShape \<Rightarrow> HeapShape option" where
  "shift_to_previous_tree shape =
     (let shape' = shape\<lparr>trees := drop_bit 1 (trees shape),
                          smallestTreeSize := smallestTreeSize shape + 1\<rparr>
      in if \<not> bit (trees shape') 0 then shift_to_previous_tree shape' else Some shape')"

declare shift_to_previous_tree.simps [code]

lemma leonardo_at_pos: "leonardo_at k = Some l \<Longrightarrow> 0 < l"
proof -
  have "\<forall>x \<in> set kLeonardoNumbers. 0 < x"
    by (simp add: kLeonardoNumbers_def)
  moreover assume "leonardo_at k = Some l"
  then have "k < length kLeonardoNumbers" and "l = kLeonardoNumbers ! k"
    by (auto simp: leonardo_at_def kNumLeonardoNumbers_def kLeonardoNumbers_def split: if_splits)
  then have "l \<in> set kLeonardoNumbers"
    by (metis nth_mem)
  ultimately show ?thesis by blast
qed

text \<open>The \<open>while (true)\<close> loop of \<open>LeonardoHeapRectify\<close>, with the final rebalance.\<close>

function LeonardoHeapRectify_loop ::
  "('a \<Rightarrow> 'a \<Rightarrow> bool) \<Rightarrow> 'a list \<Rightarrow> nat \<Rightarrow> HeapShape \<Rightarrow> 'a list option" where
  "LeonardoHeapRectify_loop cmp a itr shape =
     do {
       let lastHeapSize = smallestTreeSize shape;
       l \<leftarrow> leonardo_at lastHeapSize;
       if itr = l - 1 then RebalanceSingleHeap cmp a itr lastHeapSize
       else do {
         toCompare \<leftarrow>
           (if smallestTreeSize shape > 1 then
              do {
                largeChild \<leftarrow> LargerChild cmp a itr (smallestTreeSize shape);
                tv \<leftarrow> deref a itr;
                lv \<leftarrow> deref a largeChild;
                Some (if cmp tv lv then largeChild else itr)
              }
            else Some itr);
         priorHeap \<leftarrow> iter_minus itr l;
         cv \<leftarrow> deref a toCompare;
         pv \<leftarrow> deref a priorHeap;
         if \<not> cmp cv pv then RebalanceSingleHeap cmp a itr lastHeapSize
         else do {
           shape' \<leftarrow> shift_to_previous_tree shape;
           LeonardoHeapRectify_loop cmp (iter_swap a itr priorHeap) priorHeap shape'
         }
       }
     }"
  by pat_completeness auto
termination
proof (relation "measure (\<lambda>(cmp, a, itr, shape). itr)", goal_cases)
  case 1
  show ?case by simp
next
  case (2 cmp a itr shape lastHeapSize l toCompare priorHeap cv pv shape')
  from 2 have "0 < l" by (auto dest: leonardo_at_pos)
  with 2 show ?case by (auto simp: iter_minus_def split: if_splits)
qed

definition LeonardoHeapRectify ::
  "('a \<Rightarrow> 'a \<Rightarrow> bool) \<Rightarrow> 'a list \<Rightarrow> nat \<Rightarrow> HeapShape \<Rightarrow> 'a list option" where
  "LeonardoHeapRectify cmp a end shape =
     do {
       itr \<leftarrow> iter_minus end 1;
       LeonardoHeapRectify_loop cmp a itr shape
     }"

text \<open>The shape update of \<open>LeonardoHeapAdd\<close>: its four cases, in the source's order.\<close>

definition LeonardoHeapAdd_shape :: "HeapShape \<Rightarrow> HeapShape" where
  "LeonardoHeapAdd_shape shape =
     (if \<not> bit (trees shape) 0 then
        shape\<lparr>trees := set_bit 0 (trees shape), smallestTreeSize := 1\<rparr>
      else if bit (trees shape) 1 \<and> bit (trees shape) 0 then
        shape\<lparr>trees := set_bit 0 (drop_bit 2 (trees shape)),
              smallestTreeSize := smallestTreeSize shape + 2\<rparr>
      else if smallestTreeSize shape = 1 then
        shape\<lparr>trees := set_bit 0 (push_bit 1 (trees shape)), smallestTreeSize := 0\<rparr>
      else
        shape\<lparr>trees := set_bit 0 (push_bit (size_t_sub (smallestTreeSize shape) 1) (trees shape)),
              smallestTreeSize := 1\<rparr>)"

text \<open>The \<open>switch\<close> of \<open>LeonardoHeapAdd\<close> that computes \<open>isLast\<close>, on the updated shape.\<close>

definition LeonardoHeapAdd_isLast :: "nat \<Rightarrow> nat \<Rightarrow> HeapShape \<Rightarrow> bool option" where
  "LeonardoHeapAdd_isLast end heapEnd shape =
     (if smallestTreeSize shape = 0 then Some (end + 1 = heapEnd)
      else if smallestTreeSize shape = 1 then
        Some (end + 1 = heapEnd \<or> (end + 2 = heapEnd \<and> \<not> bit (trees shape) 1))
      else
        do {
          l \<leftarrow> leonardo_at (smallestTreeSize shape - 1);
          Some (size_t_sub heapEnd (end + 1) < l + 1)
        })"

definition LeonardoHeapAdd ::
  "('a \<Rightarrow> 'a \<Rightarrow> bool) \<Rightarrow> 'a list \<Rightarrow> nat \<Rightarrow> nat \<Rightarrow> HeapShape \<Rightarrow> ('a list \<times> HeapShape) option" where
  "LeonardoHeapAdd cmp a end heapEnd shape =
     do {
       let shape' = LeonardoHeapAdd_shape shape;
       isLast \<leftarrow> LeonardoHeapAdd_isLast end heapEnd shape';
       a' \<leftarrow> (if \<not> isLast then RebalanceSingleHeap cmp a end (smallestTreeSize shape')
              else LeonardoHeapRectify cmp a (end + 1) shape');
       Some (a', shape')
     }"

text \<open>
  The loop of case 1 of \<open>LeonardoHeapRemove\<close>:
  \<^verbatim>\<open>do { ... } while (shape.trees.any() && !shape.trees[0]);\<close>
\<close>

function LeonardoHeapRemove_scan :: "HeapShape \<Rightarrow> HeapShape" where
  "LeonardoHeapRemove_scan shape =
     (let shape' = shape\<lparr>trees := drop_bit 1 (trees shape),
                          smallestTreeSize := smallestTreeSize shape + 1\<rparr>
      in if trees shape' \<noteq> 0 \<and> \<not> bit (trees shape') 0 then LeonardoHeapRemove_scan shape'
         else shape')"
  by pat_completeness auto
termination
proof (relation "measure (\<lambda>shape. unat (trees shape))", goal_cases)
  case 1
  show ?case by simp
next
  case (2 shape shape')
  then have "drop_bit 1 (trees shape) \<noteq> 0" by simp
  then have "unat (trees shape) \<noteq> 0"
    by (metis drop_bit_of_0 unat_eq_0)
  then have "unat (trees shape) div 2 < unat (trees shape)"
    by simp
  then show ?case
    using 2 by (simp add: drop_bit_eq_div unat_div)
qed

definition LeonardoHeapRemove ::
  "('a \<Rightarrow> 'a \<Rightarrow> bool) \<Rightarrow> 'a list \<Rightarrow> nat \<Rightarrow> HeapShape \<Rightarrow> ('a list \<times> HeapShape) option" where
  "LeonardoHeapRemove cmp a end shape =
     (if smallestTreeSize shape \<le> 1 then Some (a, LeonardoHeapRemove_scan shape)
      else
        do {
          let heapOrder = smallestTreeSize shape;
          let shape' = shape\<lparr>trees := set_bit 1 (set_bit 0 (push_bit 2 (unset_bit 0 (trees shape)))),
                               smallestTreeSize := smallestTreeSize shape - 2\<rparr>;
          root \<leftarrow> iter_minus end 1;
          leftHeap \<leftarrow> FirstChild root heapOrder;
          rightHeap \<leftarrow> SecondChild root;
          let allButLast = shape'\<lparr>smallestTreeSize := smallestTreeSize shape' + 1,
                                   trees := drop_bit 1 (trees shape')\<rparr>;
          a1 \<leftarrow> LeonardoHeapRectify cmp a (leftHeap + 1) allButLast;
          a2 \<leftarrow> LeonardoHeapRectify cmp a1 (rightHeap + 1) shape';
          Some (a2, shape')
        })"

text \<open>
  The two loops of \<open>Smoothsort\<close>. Each takes the iterator where it stops as a parameter
  (\<open>Smoothsort\<close> passes \<open>end\<close> and \<open>begin\<close>), so that the state after any number of
  completed iterations is a value of the same function.
  \<^verbatim>\<open>for (itr = begin; itr != end; ++itr) LeonardoHeapAdd(begin, itr, end, shape, cmp);\<close>
  \<^verbatim>\<open>for (itr = end; itr != begin; --itr) LeonardoHeapRemove(begin, itr, shape, cmp);\<close>
\<close>

function Smoothsort_build ::
  "('a \<Rightarrow> 'a \<Rightarrow> bool) \<Rightarrow> nat \<Rightarrow> 'a list \<Rightarrow> nat \<Rightarrow> nat \<Rightarrow> HeapShape \<Rightarrow> ('a list \<times> HeapShape) option" where
  "Smoothsort_build cmp heapEnd a itr stop shape =
     (if itr = stop then Some (a, shape)
      else if stop < itr then None
      else
        do {
          (a', shape') \<leftarrow> LeonardoHeapAdd cmp a itr heapEnd shape;
          Smoothsort_build cmp heapEnd a' (itr + 1) stop shape'
        })"
  by pat_completeness auto
termination
  by (relation "measure (\<lambda>(cmp, heapEnd, a, itr, stop, shape). stop - itr)") auto

function Smoothsort_dequeue ::
  "('a \<Rightarrow> 'a \<Rightarrow> bool) \<Rightarrow> 'a list \<Rightarrow> nat \<Rightarrow> nat \<Rightarrow> HeapShape \<Rightarrow> ('a list \<times> HeapShape) option" where
  "Smoothsort_dequeue cmp a itr stop shape =
     (if itr = stop then Some (a, shape)
      else if itr < stop then None
      else
        do {
          (a', shape') \<leftarrow> LeonardoHeapRemove cmp a itr shape;
          Smoothsort_dequeue cmp a' (itr - 1) stop shape'
        })"
  by pat_completeness auto
termination
  by (relation "measure (\<lambda>(cmp, a, itr, stop, shape). itr - stop)") auto

definition Smoothsort :: "('a \<Rightarrow> 'a \<Rightarrow> bool) \<Rightarrow> 'a list \<Rightarrow> 'a list option" where
  "Smoothsort cmp a =
     (if length a = 0 \<or> length a = 1 then Some a
      else
        do {
          let shape = \<lparr>trees = 0, smallestTreeSize = 0\<rparr>;
          (a1, shape1) \<leftarrow> Smoothsort_build cmp (length a) a 0 (length a) shape;
          (a2, shape2) \<leftarrow> Smoothsort_dequeue cmp a1 (length a) 0 shape1;
          Some a2
        })"


declare RebalanceSingleHeap.simps [simp del]
declare LeonardoHeapRectify_loop.simps [simp del]
declare LeonardoHeapRemove_scan.simps [simp del]
declare Smoothsort_build.simps [simp del]
declare Smoothsort_dequeue.simps [simp del]

section \<open>Specification-level notions\<close>

text \<open>The Leonardo numbers of the glossary: L(0) = L(1) = 1, L(k) = L(k-1) + L(k-2) + 1.\<close>

fun leonardo :: "nat \<Rightarrow> nat" where
  "leonardo 0 = 1"
| "leonardo (Suc 0) = 1"
| "leonardo (Suc (Suc k)) = leonardo (Suc k) + leonardo k + 1"

text \<open>A list satisfies the Leonardo recurrence from its third entry on.\<close>

fun leonardo_steps :: "nat list \<Rightarrow> bool" where
  "leonardo_steps (x # y # z # zs) = (z = y + x + 1 \<and> leonardo_steps (y # z # zs))"
| "leonardo_steps zs = True"

text \<open>
  The single-tree rebalance as the specification words it (section 4.3), on the implicit
  tree of order \<open>k\<close> rooted at \<open>root\<close>, whose children are found with the Leonardo
  numbers themselves: while the order exceeds 1, find the larger child and its order
  (\<open>k - 2\<close> for the second child, \<open>k - 1\<close> for the first); stop when the root's value
  does not precede that child's value, otherwise exchange the two values and go on in the
  child. The larger child is the second child when the first child's value precedes the
  second's, the first child otherwise.
\<close>

definition spec_larger_child ::
  "('a \<Rightarrow> 'a \<Rightarrow> bool) \<Rightarrow> 'a list \<Rightarrow> nat \<Rightarrow> nat \<Rightarrow> nat \<times> nat" where
  "spec_larger_child cmp a root k =
     (let first = root - 1 - leonardo (k - 2); second = root - 1
      in if cmp (a ! first) (a ! second) then (second, k - 2) else (first, k - 1))"

function spec_rebalance :: "('a \<Rightarrow> 'a \<Rightarrow> bool) \<Rightarrow> 'a list \<Rightarrow> nat \<Rightarrow> nat \<Rightarrow> 'a list" where
  "spec_rebalance cmp a root k =
     (if k \<le> 1 then a
      else case spec_larger_child cmp a root k of (child, j) \<Rightarrow>
        if \<not> cmp (a ! root) (a ! child) then a
        else spec_rebalance cmp (a[root := a ! child, child := a ! root]) child j)"
  by pat_completeness auto
termination
  by (relation "measure (\<lambda>(cmp, a, root, k). k)")
    (auto simp: spec_larger_child_def Let_def split: if_splits)

declare spec_rebalance.simps [simp del]

text \<open>
  The cross-tree rectify as the specification words it (section 4.4), on the list of the
  orders of the trees from the rightmost tree leftward and the offset \<open>pos\<close> of the
  current tree's root: the comparison value is the current root or, for an order above 1,
  the larger of the root and its larger child; it is compared with the root of the next
  tree to the left, which stands \<open>L(k)\<close> places before the root of a tree of order \<open>k\<close>; the
  walk stops at the leftmost tree or when the test \<open>stop\<close> holds, and otherwise exchanges
  the two roots and moves to the next tree; the tree it stops in is rebalanced. The test
  is a parameter: \<open>stop_as_claimed\<close> is the specification's "the next tree's root is not
  smaller", \<open>stop_as_amended\<close> is "the next tree's root is not larger".
\<close>

definition larger_value :: "('a \<Rightarrow> 'a \<Rightarrow> bool) \<Rightarrow> 'a \<Rightarrow> 'a \<Rightarrow> 'a" where
  "larger_value cmp x y = (if cmp x y then y else x)"

definition stop_as_claimed :: "('a \<Rightarrow> 'a \<Rightarrow> bool) \<Rightarrow> 'a \<Rightarrow> 'a \<Rightarrow> bool" where
  "stop_as_claimed cmp v p = (\<not> cmp p v)"

definition stop_as_amended :: "('a \<Rightarrow> 'a \<Rightarrow> bool) \<Rightarrow> 'a \<Rightarrow> 'a \<Rightarrow> bool" where
  "stop_as_amended cmp v p = (\<not> cmp v p)"

fun spec_rectify_walk ::
  "('a \<Rightarrow> 'a \<Rightarrow> bool) \<Rightarrow> ('a \<Rightarrow> 'a \<Rightarrow> bool) \<Rightarrow> 'a list \<Rightarrow> nat \<Rightarrow> nat list \<Rightarrow> 'a list" where
  "spec_rectify_walk stop cmp a pos [] = a"
| "spec_rectify_walk stop cmp a pos [k] = spec_rebalance cmp a pos k"
| "spec_rectify_walk stop cmp a pos (k # k' # ks) =
     (let v = (if 1 < k
               then larger_value cmp (a ! pos) (a ! fst (spec_larger_child cmp a pos k))
               else a ! pos);
          next_root = pos - leonardo k
      in if stop v (a ! next_root) then spec_rebalance cmp a pos k
         else spec_rectify_walk stop cmp (a[pos := a ! next_root, next_root := a ! pos])
                next_root (k' # ks))"

definition spec_rectify ::
  "('a \<Rightarrow> 'a \<Rightarrow> bool) \<Rightarrow> ('a \<Rightarrow> 'a \<Rightarrow> bool) \<Rightarrow> 'a list \<Rightarrow> nat \<Rightarrow> nat list \<Rightarrow> 'a list" where
  "spec_rectify stop cmp a end ks = spec_rectify_walk stop cmp a (end - 1) ks"

text \<open>
  The comparator: \<open>cmp x y\<close> reads "x strictly precedes y". The proofs need it asymmetric
  and negatively transitive (a strict weak ordering), which every strict total order is.
\<close>

definition strict_weak_ordering :: "('a \<Rightarrow> 'a \<Rightarrow> bool) \<Rightarrow> bool" where
  "strict_weak_ordering cmp =
     ((\<forall>x y. cmp x y \<longrightarrow> \<not> cmp y x) \<and> (\<forall>x y z. \<not> cmp x y \<longrightarrow> \<not> cmp y z \<longrightarrow> \<not> cmp x z))"

text \<open>
  The implicit Leonardo tree of order \<open>k\<close> with its root at offset \<open>root\<close>: for
  \<open>k \<ge> 2\<close> its second child is the tree of order \<open>k - 2\<close> rooted at \<open>root - 1\<close> and its
  first child the tree of order \<open>k - 1\<close> rooted at \<open>root - 1 - L(k - 2)\<close>. \<open>is_heap\<close> is the
  max-heap property of the tree (no node precedes a child of its own), \<open>children_heaps\<close>
  the same for the two subtrees only: the root's value may be out of place.
\<close>

fun is_heap :: "('a \<Rightarrow> 'a \<Rightarrow> bool) \<Rightarrow> 'a list \<Rightarrow> nat \<Rightarrow> nat \<Rightarrow> bool" where
  "is_heap cmp a root 0 = True"
| "is_heap cmp a root (Suc 0) = True"
| "is_heap cmp a root (Suc (Suc k)) =
     (\<not> cmp (a ! root) (a ! (root - 1 - leonardo k)) \<and> \<not> cmp (a ! root) (a ! (root - 1)) \<and>
      is_heap cmp a (root - 1 - leonardo k) (Suc k) \<and> is_heap cmp a (root - 1) k)"

fun children_heaps :: "('a \<Rightarrow> 'a \<Rightarrow> bool) \<Rightarrow> 'a list \<Rightarrow> nat \<Rightarrow> nat \<Rightarrow> bool" where
  "children_heaps cmp a root (Suc (Suc k)) =
     (is_heap cmp a (root - 1 - leonardo k) (Suc k) \<and> is_heap cmp a (root - 1) k)"
| "children_heaps cmp a root k = True"

text \<open>
  The forest a \<open>HeapShape\<close> encodes, as the list of the orders of its trees from the
  rightmost (smallest) tree leftward: order \<open>smallestTreeSize + i\<close> is present when bit
  \<open>i\<close> of \<open>trees\<close> is set.
\<close>

definition bit_orders :: "46 word \<Rightarrow> nat \<Rightarrow> nat list" where
  "bit_orders t s = map ((+) s) (filter (bit t) [0..<46])"

definition orders_of :: "HeapShape \<Rightarrow> nat list" where
  "orders_of shape = bit_orders (trees shape) (smallestTreeSize shape)"

text \<open>
  The four cases of heap insert as the specification lists them (section 4.5), on the
  list of orders: empty forest; the two smallest orders differ by one; the smallest order
  is 1; otherwise.
\<close>

fun add_orders :: "nat list \<Rightarrow> nat list" where
  "add_orders [] = [1]"
| "add_orders (k # k' # ks) =
     (if k' = k + 1 then (k + 2) # ks else if k = 1 then 0 # 1 # k' # ks else 1 # k # k' # ks)"
| "add_orders [k] = (if k = 1 then [0, 1] else [1, k])"

text \<open>
  Heap remove on the list of orders: a tree of order 0 or 1 is dropped, a larger one is
  replaced by its two children.
\<close>

fun remove_orders :: "nat list \<Rightarrow> nat list" where
  "remove_orders [] = []"
| "remove_orders (k # ks) = (if k \<le> 1 then ks else (k - 2) # (k - 1) # ks)"

text \<open>
  The lists of orders a Leonardo forest can have: strictly increasing from the right,
  no two consecutive orders except the two smallest, and a tree of order 0 only next to a
  tree of order 1.
\<close>

fun forest_orders :: "nat list \<Rightarrow> bool" where
  "forest_orders [] = True"
| "forest_orders [k] = (k \<noteq> 0)"
| "forest_orders (k # k' # ks) =
     (k < k' \<and> (k = 0 \<longrightarrow> k' = 1) \<and> sorted_wrt (\<lambda>x y. x + 2 \<le> y) (k' # ks))"

text \<open>
  A well-formed \<open>HeapShape\<close>: bit 0 stands for the rightmost tree, and every order
  has an entry in the table.
\<close>

definition shape_wf :: "HeapShape \<Rightarrow> bool" where
  "shape_wf shape =
     ((trees shape = 0 \<or> bit (trees shape) 0) \<and> (\<forall>k \<in> set (orders_of shape). k < 46))"

text \<open>
  The number of remaining elements below which \<open>LeonardoHeapAdd\<close> takes the new
  rightmost tree as final: for an order \<open>k \<ge> 2\<close>, the room for a tree of order \<open>k - 1\<close> and
  one extra element, whatever stands to the left of the tree.
\<close>

fun final_threshold :: "nat list \<Rightarrow> nat" where
  "final_threshold [] = 0"
| "final_threshold (k # ks) =
     (if k = 0 then 1
      else if k = 1 then (case ks of k' # _ \<Rightarrow> if k' = 2 then 1 else 2 | [] \<Rightarrow> 2)
      else leonardo (k - 1) + 1)"

text \<open>
  The number of further elements after which the rightmost tree can be merged, as the
  specification words finality ("fewer than the space needed for the next possible
  merge"): one element when the tree to its left has the next order.
\<close>

fun next_merge_need :: "nat list \<Rightarrow> nat" where
  "next_merge_need [] = 0"
| "next_merge_need (k # ks) =
     (case ks of
        k' # _ \<Rightarrow> if k' = k + 1 then 1 else if k \<le> 1 then 2 else leonardo (k - 1) + 1
      | [] \<Rightarrow> if k \<le> 1 then 2 else leonardo (k - 1) + 1)"

text \<open>
  Heap insert with the finality test as a parameter: update the shape, then a full
  rectify when fewer elements remain than \<open>need\<close> says, a single-tree rebalance otherwise.
\<close>

definition spec_heap_add ::
  "(nat list \<Rightarrow> nat) \<Rightarrow> ('a \<Rightarrow> 'a \<Rightarrow> bool) \<Rightarrow> 'a list \<Rightarrow> nat \<Rightarrow> nat \<Rightarrow> HeapShape \<Rightarrow>
   ('a list \<times> HeapShape) option" where
  "spec_heap_add need cmp a end heapEnd shape =
     (let shape' = LeonardoHeapAdd_shape shape
      in map_option (\<lambda>a'. (a', shape'))
           (if heapEnd - (end + 1) < need (orders_of shape')
            then LeonardoHeapRectify cmp a (end + 1) shape'
            else RebalanceSingleHeap cmp a end (smallestTreeSize shape')))"

text \<open>The number of elements a forest with the orders \<open>ks\<close> covers.\<close>

definition forest_size :: "nat list \<Rightarrow> nat" where
  "forest_size ks = sum_list (map leonardo ks)"

text \<open>
  The shape tracks a Leonardo forest that covers exactly the first \<open>e\<close> elements.
\<close>

definition shape_inv :: "HeapShape \<Rightarrow> nat \<Rightarrow> bool" where
  "shape_inv shape e =
     (shape_wf shape \<and> forest_orders (orders_of shape) \<and> forest_size (orders_of shape) = e)"

text \<open>
  The forest with the orders \<open>ks\<close> (rightmost tree first) that ends before offset \<open>e\<close>: the
  rightmost tree has its root at \<open>e - 1\<close>, and the rest of the forest ends where that tree
  begins, at \<open>e - L(k)\<close>. \<open>forest_heaps\<close>: every tree is a max-heap. \<open>roots_sorted\<close>: no
  root precedes the root of the tree to its left, so the roots read from left to right
  are in non-descending order and the largest root is the rightmost one.
  \<open>roots_as_claimed\<close> is the order the specification words (section 5: "reading the
  forest's tree roots left to right yields values in non-increasing order"): no root
  precedes the root of the tree to its right.
\<close>

fun forest_heaps :: "('a \<Rightarrow> 'a \<Rightarrow> bool) \<Rightarrow> 'a list \<Rightarrow> nat \<Rightarrow> nat list \<Rightarrow> bool" where
  "forest_heaps cmp a e [] = True"
| "forest_heaps cmp a e (k # ks) =
     (is_heap cmp a (e - 1) k \<and> forest_heaps cmp a (e - leonardo k) ks)"

fun roots_sorted :: "('a \<Rightarrow> 'a \<Rightarrow> bool) \<Rightarrow> 'a list \<Rightarrow> nat \<Rightarrow> nat list \<Rightarrow> bool" where
  "roots_sorted cmp a e (k # k' # ks) =
     (\<not> cmp (a ! (e - 1)) (a ! (e - 1 - leonardo k)) \<and>
      roots_sorted cmp a (e - leonardo k) (k' # ks))"
| "roots_sorted cmp a e ks = True"

fun roots_as_claimed :: "('a \<Rightarrow> 'a \<Rightarrow> bool) \<Rightarrow> 'a list \<Rightarrow> nat \<Rightarrow> nat list \<Rightarrow> bool" where
  "roots_as_claimed cmp a e (k # k' # ks) =
     (\<not> cmp (a ! (e - 1 - leonardo k)) (a ! (e - 1)) \<and>
      roots_as_claimed cmp a (e - leonardo k) (k' # ks))"
| "roots_as_claimed cmp a e ks = True"

text \<open>
  During the first phase, with \<open>n\<close> elements in all and the forest ending before \<open>e\<close>:
  a tree that no later insert merges (fewer elements follow it than its next merge needs)
  has its root and the roots to its left in order.
\<close>

fun sorted_when_final ::
  "('a \<Rightarrow> 'a \<Rightarrow> bool) \<Rightarrow> 'a list \<Rightarrow> nat \<Rightarrow> nat \<Rightarrow> nat list \<Rightarrow> bool" where
  "sorted_when_final cmp a n e [] = True"
| "sorted_when_final cmp a n e (k # ks) =
     ((n - e < next_merge_need (k # ks) \<longrightarrow> roots_sorted cmp a e (k # ks)) \<and>
      sorted_when_final cmp a n (e - leonardo k) ks)"

text \<open>
  During the second phase: the elements from offset \<open>e\<close> on are in non-descending order,
  and none of them precedes an element before \<open>e\<close>.
\<close>

definition sorted_tail :: "('a \<Rightarrow> 'a \<Rightarrow> bool) \<Rightarrow> 'a list \<Rightarrow> nat \<Rightarrow> bool" where
  "sorted_tail cmp a e =
     (sorted_wrt (\<lambda>x y. \<not> cmp y x) (drop e a) \<and>
      (\<forall>i j. i < e \<and> e \<le> j \<and> j < length a \<longrightarrow> \<not> cmp (a ! j) (a ! i)))"

section \<open>The table of Leonardo numbers\<close>

lemma leonardo_steps_nth:
  "leonardo_steps xs \<Longrightarrow> k + 2 < length xs \<Longrightarrow> xs ! (k + 2) = xs ! (k + 1) + xs ! k + 1"
proof (induction xs arbitrary: k rule: leonardo_steps.induct)
  case (1 x y z zs)
  show ?case
  proof (cases k)
    case 0
    with "1.prems" show ?thesis by simp
  next
    case (Suc j)
    from "1.prems" Suc have "leonardo_steps (y # z # zs)" and "j + 2 < length (y # z # zs)"
      by auto
    then have "(y # z # zs) ! (j + 2) = (y # z # zs) ! (j + 1) + (y # z # zs) ! j + 1"
      by (rule "1.IH")
    with Suc show ?thesis by simp
  qed
qed simp_all

lemma kLeonardoNumbers_steps: "leonardo_steps kLeonardoNumbers"
  by (simp add: kLeonardoNumbers_def)

lemma length_kLeonardoNumbers: "length kLeonardoNumbers = 46"
  by (simp add: kLeonardoNumbers_def)

lemma kLeonardoNumbers_step:
  "k + 2 < 46 \<Longrightarrow>
   kLeonardoNumbers ! (k + 2) = kLeonardoNumbers ! (k + 1) + kLeonardoNumbers ! k + 1"
  using leonardo_steps_nth [OF kLeonardoNumbers_steps] by (simp add: length_kLeonardoNumbers)

lemma kLeonardoNumbers_leonardo: "k < 46 \<Longrightarrow> kLeonardoNumbers ! k = leonardo k"
proof (induction k rule: leonardo.induct)
  case 1
  show ?case by (simp add: kLeonardoNumbers_def)
next
  case 2
  show ?case by (simp add: kLeonardoNumbers_def)
next
  case (3 k)
  then show ?case using kLeonardoNumbers_step [of k] by simp
qed

lemma kLeonardoNumbers_upper: "k < 46 \<Longrightarrow> kLeonardoNumbers ! k \<le> 3672623805"
proof -
  have "\<forall>x \<in> set kLeonardoNumbers. x \<le> 3672623805"
    by (simp add: kLeonardoNumbers_def)
  moreover assume "k < 46"
  then have "kLeonardoNumbers ! k \<in> set kLeonardoNumbers"
    by (simp add: length_kLeonardoNumbers)
  ultimately show ?thesis by blast
qed

text \<open>
  Claim C9, as stated, asks for a table entry at least as large as every sequence length
  that \<open>size_t\<close> can represent. The largest 32-bit length has none: every entry is below it.
\<close>

theorem kLeonardoNumbers_cover_counterexample:
  "\<not> (\<forall>n < (2::nat) ^ 32. \<exists>k < kNumLeonardoNumbers. n \<le> kLeonardoNumbers ! k)"
proof
  assume "\<forall>n < (2::nat) ^ 32. \<exists>k < kNumLeonardoNumbers. n \<le> kLeonardoNumbers ! k"
  then have "\<exists>k < kNumLeonardoNumbers. (4294967295::nat) \<le> kLeonardoNumbers ! k"
    by simp
  then obtain k where "k < 46" and "(4294967295::nat) \<le> kLeonardoNumbers ! k"
    by (auto simp: kNumLeonardoNumbers_def)
  with kLeonardoNumbers_upper [of k] show False by simp
qed

text \<open>
  Claim C9, amended: the table has \<open>kNumLeonardoNumbers\<close> entries, its entries 0 and 1 are 1,
  every later entry is the sum of the two before it plus 1, and it holds exactly the
  Leonardo numbers below 2^32: every entry is below 2^32 and the next Leonardo number
  (entry 45 plus entry 44 plus 1) is not.
\<close>

theorem kLeonardoNumbers_recurrence:
  "length kLeonardoNumbers = kNumLeonardoNumbers \<and>
   kLeonardoNumbers ! 0 = 1 \<and> kLeonardoNumbers ! 1 = 1 \<and>
   (\<forall>k. 2 \<le> k \<and> k < kNumLeonardoNumbers \<longrightarrow>
      kLeonardoNumbers ! k = kLeonardoNumbers ! (k - 1) + kLeonardoNumbers ! (k - 2) + 1) \<and>
   (\<forall>k < kNumLeonardoNumbers. kLeonardoNumbers ! k < 2 ^ 32) \<and>
   2 ^ 32 \<le> kLeonardoNumbers ! 45 + kLeonardoNumbers ! 44 + 1"
proof (intro conjI allI impI)
  show "length kLeonardoNumbers = kNumLeonardoNumbers"
    by (simp add: length_kLeonardoNumbers kNumLeonardoNumbers_def)
  show "kLeonardoNumbers ! 0 = 1" and "kLeonardoNumbers ! 1 = 1"
    by (simp_all add: kLeonardoNumbers_def)
  show "(2::nat) ^ 32 \<le> kLeonardoNumbers ! 45 + kLeonardoNumbers ! 44 + 1"
    by (simp add: kLeonardoNumbers_def)
next
  fix k
  assume "2 \<le> k \<and> k < kNumLeonardoNumbers"
  then have k: "2 \<le> k" "k < 46"
    by (simp_all add: kNumLeonardoNumbers_def)
  then obtain j where j: "k = j + 2"
    using le_Suc_ex by (metis add.commute)
  with k have "j + 2 < 46" by simp
  from kLeonardoNumbers_step [OF this] j
  show "kLeonardoNumbers ! k = kLeonardoNumbers ! (k - 1) + kLeonardoNumbers ! (k - 2) + 1"
    by simp
next
  fix k
  assume "k < kNumLeonardoNumbers"
  then have "k < 46"
    by (simp add: kNumLeonardoNumbers_def)
  from kLeonardoNumbers_upper [OF this] show "kLeonardoNumbers ! k < 2 ^ 32"
    by simp
qed

theorem kLeonardoNumbers_recurrence_witness:
  "kLeonardoNumbers ! 2 = 3 \<and> kLeonardoNumbers ! 45 < 2 ^ 32"
proof -
  note r = kLeonardoNumbers_recurrence
  have b: "(2::nat) \<le> 2 \<and> (2::nat) < kNumLeonardoNumbers" and c: "45 < kNumLeonardoNumbers"
    by (simp_all add: kNumLeonardoNumbers_def)
  from r have "\<forall>k. 2 \<le> k \<and> k < kNumLeonardoNumbers \<longrightarrow>
      kLeonardoNumbers ! k = kLeonardoNumbers ! (k - 1) + kLeonardoNumbers ! (k - 2) + 1"
    by blast
  with b have "kLeonardoNumbers ! 2 = kLeonardoNumbers ! (2 - 1) + kLeonardoNumbers ! (2 - 2) + 1"
    by blast
  moreover from r have "kLeonardoNumbers ! 1 = 1" and "kLeonardoNumbers ! 0 = 1"
    by blast+
  ultimately have "kLeonardoNumbers ! 2 = 3"
    by simp
  moreover from r have "\<forall>k < kNumLeonardoNumbers. kLeonardoNumbers ! k < 2 ^ 32"
    by blast
  with c have "kLeonardoNumbers ! 45 < 2 ^ 32"
    by blast
  ultimately show ?thesis ..
qed

section \<open>LargerChild\<close>

text \<open>
  Claim C7, as stated, has \<open>LargerChild\<close> return the second child on a tie. On the tree
  of order 2 stored in \<open>[1, 1, 2]\<close> (root at offset 2, children at offsets 0 and 1, both
  holding 1) it returns the first child.
\<close>

theorem LargerChild_tie_counterexample:
  "deref [1, 1, 2 :: nat] 0 = deref [1, 1, 2] 1 \<and>
   FirstChild 2 2 = Some 0 \<and> SecondChild 2 = Some 1 \<and>
   LargerChild (<) [1, 1, 2 :: nat] 2 2 = FirstChild 2 2 \<and>
   LargerChild (<) [1, 1, 2 :: nat] 2 2 \<noteq> SecondChild 2"
  by (simp add: LargerChild_def FirstChild_def SecondChild_def iter_minus_def deref_def
      leonardo_at_def size_t_sub_def kNumLeonardoNumbers_def kLeonardoNumbers_def)

text \<open>
  Claim C7, amended: \<open>LargerChild\<close> is a function of its inputs; where both children can
  be read it returns the second child exactly when the comparator puts the first child's
  value strictly before the second's, and the first child otherwise, so on a tie (neither
  value before the other) it returns the first child.
\<close>

theorem LargerChild_first_on_tie:
  assumes "FirstChild root sz = Some first" and "SecondChild root = Some second"
    and "deref a first = Some fv" and "deref a second = Some sv"
  shows "LargerChild cmp a root sz = Some (if cmp fv sv then second else first) \<and>
         (\<not> cmp fv sv \<and> \<not> cmp sv fv \<longrightarrow> LargerChild cmp a root sz = Some first)"
  using assms by (simp add: LargerChild_def)

theorem LargerChild_first_on_tie_witness:
  "LargerChild (<) [1, 1, 2 :: nat] 2 2 = Some 0"
proof -
  have "FirstChild 2 2 = Some 0" and "SecondChild 2 = Some 1"
    and "deref [1, 1, 2 :: nat] 0 = Some 1" and "deref [1, 1, 2 :: nat] 1 = Some 1"
    by (simp_all add: FirstChild_def SecondChild_def iter_minus_def deref_def
        leonardo_at_def size_t_sub_def kNumLeonardoNumbers_def kLeonardoNumbers_def)
  from LargerChild_first_on_tie [OF this, of "(<)"] show ?thesis by simp
qed

section \<open>Single-tree rebalance\<close>

lemma leonardo_pos [simp]: "0 < leonardo k"
  by (induction k rule: leonardo.induct) simp_all

lemma leonardo_at_leonardo: "k < 46 \<Longrightarrow> leonardo_at k = Some (leonardo k)"
  by (simp add: leonardo_at_def kNumLeonardoNumbers_def kLeonardoNumbers_leonardo)

lemma leonardo_at_None: "\<not> k < 46 \<Longrightarrow> leonardo_at k = None"
  by (simp add: leonardo_at_def kNumLeonardoNumbers_def)

lemma leonardo_rec: "2 \<le> k \<Longrightarrow> leonardo k = leonardo (k - 1) + leonardo (k - 2) + 1"
  by (cases k rule: leonardo.cases) simp_all

lemma leonardo_mono_Suc: "leonardo k \<le> leonardo (Suc k)"
  by (cases k rule: leonardo.cases) simp_all

lemma leonardo_mono: "i \<le> j \<Longrightarrow> leonardo i \<le> leonardo j"
  by (rule lift_Suc_mono_le [of leonardo]) (simp_all add: leonardo_mono_Suc)

lemma leonardo_strict: "1 \<le> k \<Longrightarrow> leonardo k < leonardo (Suc k)"
  by (cases k rule: leonardo.cases) simp_all

lemma SecondChild_eq: "1 \<le> root \<Longrightarrow> SecondChild root = Some (root - 1)"
  by (simp add: SecondChild_def iter_minus_def)

lemma FirstChild_eq:
  "2 \<le> k \<Longrightarrow> k < 48 \<Longrightarrow> leonardo (k - 2) + 1 \<le> root \<Longrightarrow>
   FirstChild root k = Some (root - 1 - leonardo (k - 2))"
  by (simp add: FirstChild_def SecondChild_def iter_minus_def size_t_sub_def leonardo_at_leonardo)

lemma RebalanceSingleHeap_leaf: "k \<le> 1 \<Longrightarrow> RebalanceSingleHeap cmp a root k = Some a"
  by (subst RebalanceSingleHeap.simps) simp

lemma RebalanceSingleHeap_step:
  assumes "2 \<le> k" and "k < 48" and "leonardo k \<le> root + 1" and "root < length a"
  shows "RebalanceSingleHeap cmp a root k =
    (let first = root - 1 - leonardo (k - 2); second = root - 1;
         largerChild = (if cmp (a ! first) (a ! second) then second else first);
         childSize = (if cmp (a ! first) (a ! second) then k - 2 else k - 1)
     in if \<not> cmp (a ! root) (a ! largerChild) then Some a
        else RebalanceSingleHeap cmp (iter_swap a root largerChild) largerChild childSize)"
proof -
  from assms leonardo_rec [of k] have r: "leonardo (k - 2) + 1 \<le> root"
    using leonardo_pos [of "k - 1"] by linarith
  with assms have f: "FirstChild root k = Some (root - 1 - leonardo (k - 2))"
    and s: "SecondChild root = Some (root - 1)"
    by (simp_all add: FirstChild_eq SecondChild_eq)
  from assms have d: "deref a (root - 1 - leonardo (k - 2)) = Some (a ! (root - 1 - leonardo (k - 2)))"
    "deref a (root - 1) = Some (a ! (root - 1))" "deref a root = Some (a ! root)"
    by (simp_all add: deref_def)
  from assms have k: "1 < k" by simp
  show ?thesis
    using f s d k by (simp add: RebalanceSingleHeap.simps [of cmp a root k] Let_def)
qed


lemma length_iter_swap [simp]: "length (iter_swap a i j) = length a"
  by (simp add: iter_swap_def)

lemma mset_iter_swap: "i < length a \<Longrightarrow> j < length a \<Longrightarrow> mset (iter_swap a i j) = mset a"
  by (simp add: iter_swap_def mset_swap)

lemma nth_iter_swap:
  "i < length a \<Longrightarrow> j < length a \<Longrightarrow>
   iter_swap a i j ! n = (if n = j then a ! i else if n = i then a ! j else a ! n)"
  by (simp add: iter_swap_def nth_list_update)

lemma is_heap_frame:
  "leonardo k \<le> root + 1 \<Longrightarrow> (\<And>i. root + 1 \<le> i + leonardo k \<Longrightarrow> i \<le> root \<Longrightarrow> a' ! i = a ! i) \<Longrightarrow>
   is_heap cmp a' root k = is_heap cmp a root k"
proof (induction cmp a root k rule: is_heap.induct)
  case (3 cmp a root k)
  have r: "leonardo (Suc (Suc k)) = leonardo (Suc k) + leonardo k + 1" by simp
  note fr = "3.prems"(2)
  have "is_heap cmp a' (root - 1 - leonardo k) (Suc k) = is_heap cmp a (root - 1 - leonardo k) (Suc k)"
    using "3.prems"(1) r by (intro "3.IH"(1) fr) linarith+
  moreover have "is_heap cmp a' (root - 1) k = is_heap cmp a (root - 1) k"
    using "3.prems"(1) r leonardo_pos [of "Suc k"] by (intro "3.IH"(2) fr) linarith+
  moreover have "a' ! root = a ! root" "a' ! (root - 1) = a ! (root - 1)"
    "a' ! (root - 1 - leonardo k) = a ! (root - 1 - leonardo k)"
    using "3.prems"(1) r leonardo_pos [of "Suc k"] leonardo_pos [of k] by (intro fr; linarith)+
  ultimately show ?case by simp
qed simp_all

lemma swo_irrefl: "strict_weak_ordering cmp \<Longrightarrow> \<not> cmp x x"
  unfolding strict_weak_ordering_def by blast

lemma swo_asym: "strict_weak_ordering cmp \<Longrightarrow> cmp x y \<Longrightarrow> \<not> cmp y x"
  unfolding strict_weak_ordering_def by blast

lemma swo_le_trans: "strict_weak_ordering cmp \<Longrightarrow> \<not> cmp x y \<Longrightarrow> \<not> cmp y z \<Longrightarrow> \<not> cmp x z"
  unfolding strict_weak_ordering_def by blast

lemma is_heap_root_max:
  "strict_weak_ordering cmp \<Longrightarrow> is_heap cmp a root k \<Longrightarrow> leonardo k \<le> root + 1 \<Longrightarrow>
    root + 1 \<le> i + leonardo k \<Longrightarrow> i \<le> root \<Longrightarrow> \<not> cmp (a ! root) (a ! i)"
proof (induction cmp a root k arbitrary: i rule: is_heap.induct)
  case (1 cmp a root)
  then have "i = root" by simp
  with 1 show ?case by (simp add: swo_irrefl)
next
  case (2 cmp a root)
  then have "i = root" by simp
  with 2 show ?case by (simp add: swo_irrefl)
next
  case (3 cmp a root k)
  note swo = "3.prems"(1)
  from "3.prems"(2) have h1: "is_heap cmp a (root - 1 - leonardo k) (Suc k)"
    and h2: "is_heap cmp a (root - 1) k"
    and c1: "\<not> cmp (a ! root) (a ! (root - 1 - leonardo k))"
    and c2: "\<not> cmp (a ! root) (a ! (root - 1))"
    by simp_all
  have r: "leonardo (Suc (Suc k)) = leonardo (Suc k) + leonardo k + 1" by simp
  consider "i = root" | "root \<le> i + leonardo k" "i < root" | "i + leonardo k < root"
    using "3.prems"(5) by linarith
  then show ?case
  proof cases
    case 1
    with swo show ?thesis by (simp add: swo_irrefl)
  next
    case 2
    have "\<not> cmp (a ! (root - 1)) (a ! i)"
      using swo h2 "3.prems"(3) r 2 leonardo_pos [of "Suc k"]
      by (intro "3.IH"(2)) linarith+
    from swo_le_trans [OF swo c2 this] show ?thesis .
  next
    case 3
    have "\<not> cmp (a ! (root - 1 - leonardo k)) (a ! i)"
      using swo h1 "3.prems"(3,4) r 3
      by (intro "3.IH"(1)) linarith+
    from swo_le_trans [OF swo c1 this] show ?thesis .
  qed
qed


lemma frame_segment_mset:
  assumes len: "length a' = length a" and ms: "mset a' = mset a"
    and lohi: "lo \<le> hi" "hi \<le> length a"
    and fr: "\<And>i. i < length a \<Longrightarrow> i < lo \<or> hi \<le> i \<Longrightarrow> a' ! i = a ! i"
  shows "mset (take (hi - lo) (drop lo a')) = mset (take (hi - lo) (drop lo a))"
proof -
  have t: "take lo a' = take lo a"
    using len lohi fr by (intro nth_take_lemma) auto
  have d: "drop hi a' = drop hi a"
    using len lohi fr by (intro nth_equalityI) auto
  have split: "xs = take lo xs @ take (hi - lo) (drop lo xs) @ drop hi xs" for xs :: "'a list"
  proof -
    have "drop lo xs = take (hi - lo) (drop lo xs) @ drop (hi - lo) (drop lo xs)"
      by (rule append_take_drop_id [symmetric])
    also have "drop (hi - lo) (drop lo xs) = drop hi xs"
      using lohi by simp
    finally have "take lo xs @ drop lo xs = take lo xs @ take (hi - lo) (drop lo xs) @ drop hi xs"
      by simp
    then show ?thesis by simp
  qed
  have "mset a' = mset (take lo a') + mset (take (hi - lo) (drop lo a')) + mset (drop hi a')"
    by (subst split [of a']) simp
  moreover have "mset a = mset (take lo a) + mset (take (hi - lo) (drop lo a)) + mset (drop hi a)"
    by (subst split [of a]) simp
  ultimately show ?thesis using ms t d by simp
qed

lemma frame_elem:
  assumes len: "length a' = length a" and ms: "mset a' = mset a"
    and lohi: "lo \<le> hi" "hi \<le> length a"
    and fr: "\<And>i. i < length a \<Longrightarrow> i < lo \<or> hi \<le> i \<Longrightarrow> a' ! i = a ! i"
    and i: "lo \<le> i" "i < hi"
  shows "\<exists>j. lo \<le> j \<and> j < hi \<and> a' ! i = a ! j"
proof -
  have "mset (take (hi - lo) (drop lo a')) = mset (take (hi - lo) (drop lo a))"
    using len ms lohi fr by (rule frame_segment_mset)
  then have eq: "set (take (hi - lo) (drop lo a')) = set (take (hi - lo) (drop lo a))"
    by (rule mset_eq_setD)
  have "a' ! i = take (hi - lo) (drop lo a') ! (i - lo)"
    using i len lohi by simp
  moreover have "i - lo < length (take (hi - lo) (drop lo a'))"
    using i len lohi by simp
  ultimately have "a' ! i \<in> set (take (hi - lo) (drop lo a'))"
    by (metis nth_mem)
  with eq have "a' ! i \<in> set (take (hi - lo) (drop lo a))" by simp
  then obtain n where n: "n < length (take (hi - lo) (drop lo a))"
    and "take (hi - lo) (drop lo a) ! n = a' ! i"
    by (auto simp: in_set_conv_nth)
  then have "a' ! i = a ! (lo + n)" and "lo + n < hi"
    using lohi by auto
  then show ?thesis by (intro exI [of _ "lo + n"]) simp
qed

lemma RebalanceSingleHeap_frame:
  assumes "k < 46" and "leonardo k \<le> root + 1" and "root < length a"
  shows "\<exists>a'. RebalanceSingleHeap cmp a root k = Some a' \<and> length a' = length a \<and>
    mset a' = mset a \<and> (\<forall>i. i + leonardo k \<le> root \<or> root < i \<longrightarrow> a' ! i = a ! i)"
  using assms
proof (induction k arbitrary: a root rule: less_induct)
  case (less k)
  show ?case
  proof (cases "k \<le> 1")
    case True
    then show ?thesis by (simp add: RebalanceSingleHeap_leaf)
  next
    case False
    then have k2: "2 \<le> k" by simp
    define first where "first = root - 1 - leonardo (k - 2)"
    define second where "second = root - 1"
    define largerChild where "largerChild = (if cmp (a ! first) (a ! second) then second else first)"
    define childSize where "childSize = (if cmp (a ! first) (a ! second) then k - 2 else k - 1)"
    have step: "RebalanceSingleHeap cmp a root k =
      (if \<not> cmp (a ! root) (a ! largerChild) then Some a
       else RebalanceSingleHeap cmp (iter_swap a root largerChild) largerChild childSize)"
      using RebalanceSingleHeap_step [of k root a cmp] k2 less.prems
      by (simp add: Let_def first_def second_def largerChild_def childSize_def)
    show ?thesis
    proof (cases "cmp (a ! root) (a ! largerChild)")
      case False
      with step show ?thesis by simp
    next
      case True
      have r: "leonardo k = leonardo (k - 1) + leonardo (k - 2) + 1"
        using k2 by (rule leonardo_rec)
      have rp: "leonardo (k - 2) < root"
        using less.prems r leonardo_pos [of "k - 1"] by linarith
      have c: "childSize < k" "childSize < 46" "leonardo childSize \<le> largerChild + 1"
        "largerChild < root" "root + 1 + leonardo childSize \<le> largerChild + 1 + leonardo k"
        using k2 less.prems r rp
        by (auto simp: childSize_def largerChild_def first_def second_def)
      with less.prems have l: "largerChild < length (iter_swap a root largerChild)"
        by simp
      from less.IH [OF c(1) c(2) c(3) l]
      obtain a' where a': "RebalanceSingleHeap cmp (iter_swap a root largerChild) largerChild childSize = Some a'"
        "length a' = length a" "mset a' = mset (iter_swap a root largerChild)"
        "\<And>i. i + leonardo childSize \<le> largerChild \<or> largerChild < i \<Longrightarrow>
          a' ! i = iter_swap a root largerChild ! i"
        by auto
      have "a' ! i = a ! i" if "i + leonardo k \<le> root \<or> root < i" for i
      proof -
        from that c have o: "i + leonardo childSize \<le> largerChild \<or> largerChild < i"
          by linarith
        then have "a' ! i = iter_swap a root largerChild ! i" by (rule a'(4))
        also have "i \<noteq> root" "i \<noteq> largerChild"
          using that o leonardo_pos [of k] leonardo_pos [of childSize] by linarith+
        then have "iter_swap a root largerChild ! i = a ! i"
          using c less.prems by (simp add: nth_iter_swap)
        finally show ?thesis .
      qed
      moreover have "mset a' = mset a"
        using a'(3) c less.prems by (simp add: mset_iter_swap)
      ultimately show ?thesis
        using step True a' by simp
    qed
  qed
qed


lemma is_heap_leaf: "k \<le> 1 \<Longrightarrow> is_heap cmp a root k"
  by (cases k rule: leonardo.cases) simp_all

lemma is_heap_unfold:
  "2 \<le> k \<Longrightarrow> is_heap cmp a root k =
    (\<not> cmp (a ! root) (a ! (root - 1 - leonardo (k - 2))) \<and> \<not> cmp (a ! root) (a ! (root - 1)) \<and>
     is_heap cmp a (root - 1 - leonardo (k - 2)) (k - 1) \<and> is_heap cmp a (root - 1) (k - 2))"
  by (cases k rule: leonardo.cases) simp_all

lemma children_heaps_unfold:
  "2 \<le> k \<Longrightarrow> children_heaps cmp a root k =
    (is_heap cmp a (root - 1 - leonardo (k - 2)) (k - 1) \<and> is_heap cmp a (root - 1) (k - 2))"
  by (cases k rule: leonardo.cases) simp_all

lemma is_heap_children: "is_heap cmp a root k \<Longrightarrow> children_heaps cmp a root k"
  by (cases k rule: leonardo.cases) simp_all

lemma children_heaps_frame:
  assumes "leonardo k \<le> root + 1"
    and fr: "\<And>i. root + 1 \<le> i + leonardo k \<Longrightarrow> i < root \<Longrightarrow> a' ! i = a ! i"
  shows "children_heaps cmp a' root k = children_heaps cmp a root k"
proof (cases "2 \<le> k")
  case True
  then have r: "leonardo k = leonardo (k - 1) + leonardo (k - 2) + 1"
    by (rule leonardo_rec)
  have rp: "leonardo (k - 2) < root"
    using assms(1) r leonardo_pos [of "k - 1"] by linarith
  have "is_heap cmp a' (root - 1 - leonardo (k - 2)) (k - 1) =
        is_heap cmp a (root - 1 - leonardo (k - 2)) (k - 1)"
    using assms(1) r rp by (intro is_heap_frame fr) linarith+
  moreover have "is_heap cmp a' (root - 1) (k - 2) = is_heap cmp a (root - 1) (k - 2)"
    using assms(1) r rp by (intro is_heap_frame fr) linarith+
  ultimately show ?thesis using True by (simp add: children_heaps_unfold)
next
  case False
  then show ?thesis by (cases k rule: leonardo.cases) simp_all
qed

lemma RebalanceSingleHeap_heap:
  assumes swo: "strict_weak_ordering cmp"
  shows "k < 46 \<Longrightarrow> leonardo k \<le> root + 1 \<Longrightarrow> root < length a \<Longrightarrow>
    children_heaps cmp a root k \<Longrightarrow> RebalanceSingleHeap cmp a root k = Some a' \<Longrightarrow>
    is_heap cmp a' root k"
proof (induction k arbitrary: a root a' rule: less_induct)
  case (less k)
  show ?case
  proof (cases "k \<le> 1")
    case True
    then show ?thesis by (rule is_heap_leaf)
  next
    case False
    then have k2: "2 \<le> k" by simp
    define first where "first = root - 1 - leonardo (k - 2)"
    define second where "second = root - 1"
    define b where "b = cmp (a ! first) (a ! second)"
    define lc where "lc = (if b then second else first)"
    define cs where "cs = (if b then k - 2 else k - 1)"
    define oc where "oc = (if b then first else second)"
    define os where "os = (if b then k - 1 else k - 2)"
    have step: "RebalanceSingleHeap cmp a root k =
      (if \<not> cmp (a ! root) (a ! lc) then Some a
       else RebalanceSingleHeap cmp (iter_swap a root lc) lc cs)"
      using RebalanceSingleHeap_step [of k root a cmp] k2 less.prems
      by (simp add: Let_def first_def second_def lc_def cs_def b_def)
    have r: "leonardo k = leonardo (k - 1) + leonardo (k - 2) + 1"
      using k2 by (rule leonardo_rec)
    have rp: "leonardo (k - 2) < root"
      using less.prems r leonardo_pos [of "k - 1"] by linarith
    have heap_iff: "is_heap cmp x root k =
        (\<not> cmp (x ! root) (x ! lc) \<and> \<not> cmp (x ! root) (x ! oc) \<and>
         is_heap cmp x lc cs \<and> is_heap cmp x oc os)" for x
      using k2 by (auto simp: is_heap_unfold lc_def oc_def cs_def os_def first_def second_def)
    have hc: "is_heap cmp a lc cs" and ho: "is_heap cmp a oc os"
      using less.prems(4) k2
      by (auto simp: children_heaps_unfold lc_def oc_def cs_def os_def first_def second_def)
    have lo: "\<not> cmp (a ! lc) (a ! oc)"
      using swo by (auto simp: lc_def oc_def b_def dest: swo_asym)
    note p = leonardo_pos [of "k - 1"] leonardo_pos [of "k - 2"]
    have c: "cs < k" "cs < 46" "leonardo cs \<le> lc + 1" "lc < root" "lc < length a"
      "root + 1 + leonardo cs \<le> lc + 1 + leonardo k" "leonardo os \<le> oc + 1" "oc < root"
      using k2 less.prems(1,2,3) r rp p
      by (cases b; simp only: cs_def lc_def first_def second_def os_def oc_def if_True if_False;
          linarith)+
    have disj: "i + leonardo cs \<le> lc \<or> lc < i" if "oc + 1 \<le> i + leonardo os" "i \<le> oc" for i
      using that k2 less.prems(1,2,3) r rp p
      by (cases b; simp only: cs_def lc_def first_def second_def os_def oc_def if_True if_False;
          linarith)
    show ?thesis
    proof (cases "cmp (a ! root) (a ! lc)")
      case False
      with step less.prems have "a' = a" by simp
      moreover from False lo swo have "\<not> cmp (a ! root) (a ! oc)"
        by (blast dest: swo_le_trans)
      ultimately show ?thesis using False hc ho by (simp add: heap_iff)
    next
      case True
      define a1 where "a1 = iter_swap a root lc"
      from step True less.prems have run: "RebalanceSingleHeap cmp a1 lc cs = Some a'"
        by (simp add: a1_def)
      have l1: "lc < length a1" "length a1 = length a" using c by (simp_all add: a1_def)
      have a1_nth: "a1 ! n = (if n = lc then a ! root else if n = root then a ! lc else a ! n)" for n
        using c less.prems by (simp add: a1_def nth_iter_swap)
      have "children_heaps cmp a lc cs" using hc by (rule is_heap_children)
      moreover have "children_heaps cmp a1 lc cs = children_heaps cmp a lc cs"
        using c by (intro children_heaps_frame) (auto simp: a1_nth)
      ultimately have ch1: "children_heaps cmp a1 lc cs" by simp
      have h': "is_heap cmp a' lc cs"
        using c(1,2,3) l1(1) ch1 run by (rule less.IH)
      from RebalanceSingleHeap_frame [OF c(2,3) l1(1), of cmp] run
      have fr: "length a' = length a1" "mset a' = mset a1"
        "\<And>i. i + leonardo cs \<le> lc \<or> lc < i \<Longrightarrow> a' ! i = a1 ! i"
        by auto
      have root': "a' ! root = a ! lc"
        using fr(3) [of root] c by (simp add: a1_nth)
      have o_same: "a' ! i = a ! i" if "oc + 1 \<le> i + leonardo os" "i \<le> oc" for i
      proof -
        from that have "i + leonardo cs \<le> lc \<or> lc < i" by (rule disj)
        then have "a' ! i = a1 ! i" by (rule fr(3))
        moreover from that c \<open>i + leonardo cs \<le> lc \<or> lc < i\<close> leonardo_pos [of cs]
        have "i \<noteq> root" "i \<noteq> lc" by linarith+
        ultimately show ?thesis by (simp add: a1_nth)
      qed
      have "is_heap cmp a' oc os = is_heap cmp a oc os"
        using c(7) o_same by (rule is_heap_frame)
      with ho have ho': "is_heap cmp a' oc os" by simp
      have "a' ! oc = a ! oc"
        using c leonardo_pos [of os] by (intro o_same) linarith+
      with lo root' have ro: "\<not> cmp (a' ! root) (a' ! oc)" by simp
      have "\<exists>j. lc + 1 - leonardo cs \<le> j \<and> j < lc + 1 \<and> a' ! lc = a1 ! j"
        using fr(1,2) _ _ _ _ _
      proof (rule frame_elem)
        show "lc + 1 - leonardo cs \<le> lc + 1" by simp
        show "lc + 1 \<le> length a1" using l1 by simp
        show "lc + 1 - leonardo cs \<le> lc" using leonardo_pos [of cs] by linarith
        show "lc < lc + 1" by simp
        show "a' ! i = a1 ! i" if "i < length a1" "i < lc + 1 - leonardo cs \<or> lc + 1 \<le> i" for i
          using that by (intro fr(3)) linarith
      qed
      then obtain j where "lc + 1 - leonardo cs \<le> j" "j < lc + 1" and j3: "a' ! lc = a1 ! j"
        by blast
      then have j: "lc + 1 \<le> j + leonardo cs" "j \<le> lc" "a' ! lc = a1 ! j"
        by linarith+
      have rl: "\<not> cmp (a' ! root) (a' ! lc)"
      proof (cases "j = lc")
        case True
        with j have "a' ! lc = a ! root" by (simp add: a1_nth)
        with \<open>cmp (a ! root) (a ! lc)\<close> swo root' show ?thesis
          by (auto dest: swo_asym)
      next
        case False
        with j c have "a' ! lc = a ! j" by (simp add: a1_nth)
        moreover have "\<not> cmp (a ! lc) (a ! j)"
          using swo hc c(3) j(1,2) by (rule is_heap_root_max)
        ultimately show ?thesis using root' by simp
      qed
      from rl ro h' ho' show ?thesis by (simp add: heap_iff)
    qed
  qed
qed

text \<open>
  Claim C6: if both subtrees of the root are max-heaps (and the tree lies inside the
  sequence), \<open>RebalanceSingleHeap\<close> returns, and the tree rooted at the original position
  is a max-heap of its order over the same elements. Each round of the loop looks at the
  larger child (the second child, of order \<open>k - 2\<close>, when the first child's value precedes
  the second's, else the first child, of order \<open>k - 1\<close>), stops when the root's value does
  not precede that child's value, and otherwise exchanges the two and descends.
\<close>

theorem RebalanceSingleHeap_restores_heap:
  assumes "strict_weak_ordering cmp" and "k < kNumLeonardoNumbers"
    and "leonardo k \<le> root + 1" and "root < length a" and "children_heaps cmp a root k"
  shows "(\<exists>a'. RebalanceSingleHeap cmp a root k = Some a' \<and> is_heap cmp a' root k \<and>
            mset a' = mset a) \<and>
         (2 \<le> k \<longrightarrow> RebalanceSingleHeap cmp a root k =
            (let first = root - 1 - leonardo (k - 2); second = root - 1;
                 largerChild = (if cmp (a ! first) (a ! second) then second else first);
                 childSize = (if cmp (a ! first) (a ! second) then k - 2 else k - 1)
             in if \<not> cmp (a ! root) (a ! largerChild) then Some a
                else RebalanceSingleHeap cmp (iter_swap a root largerChild) largerChild childSize))"
proof -
  from assms(2) have k: "k < 46" by (simp add: kNumLeonardoNumbers_def)
  from RebalanceSingleHeap_frame [OF k assms(3,4), of cmp]
  obtain a' where a': "RebalanceSingleHeap cmp a root k = Some a'" "mset a' = mset a"
    by blast
  from assms(1) k assms(3,4,5) a'(1) have "is_heap cmp a' root k"
    by (rule RebalanceSingleHeap_heap)
  with a' have "\<exists>a'. RebalanceSingleHeap cmp a root k = Some a' \<and> is_heap cmp a' root k \<and>
      mset a' = mset a"
    by blast
  moreover have "RebalanceSingleHeap cmp a root k =
      (let first = root - 1 - leonardo (k - 2); second = root - 1;
           largerChild = (if cmp (a ! first) (a ! second) then second else first);
           childSize = (if cmp (a ! first) (a ! second) then k - 2 else k - 1)
       in if \<not> cmp (a ! root) (a ! largerChild) then Some a
          else RebalanceSingleHeap cmp (iter_swap a root largerChild) largerChild childSize)"
    if "2 \<le> k"
    using that k assms(3,4) by (intro RebalanceSingleHeap_step) simp_all
  ultimately show ?thesis by blast
qed

theorem RebalanceSingleHeap_restores_heap_witness:
  "\<exists>a'. RebalanceSingleHeap (<) [1, 2, 0 :: nat] 2 2 = Some a' \<and> is_heap (<) a' 2 2 \<and>
     mset a' = mset [1, 2, 0]"
proof -
  have "strict_weak_ordering ((<) :: nat \<Rightarrow> nat \<Rightarrow> bool)"
    by (auto simp: strict_weak_ordering_def)
  moreover have "2 < kNumLeonardoNumbers"
    by (simp add: kNumLeonardoNumbers_def)
  moreover have "leonardo 2 \<le> 2 + 1"
    by (simp add: numeral_2_eq_2)
  moreover have "2 < length [1, 2, 0 :: nat]"
    by simp
  moreover have "children_heaps (<) [1, 2, 0 :: nat] 2 2"
    by (simp add: numeral_2_eq_2)
  ultimately show ?thesis
    using RebalanceSingleHeap_restores_heap [of "(<)" 2 2 "[1, 2, 0 :: nat]"] by blast
qed

section \<open>The heap shape\<close>

lemma bit_less_46: "bit (t :: 46 word) i \<Longrightarrow> i < 46"
  by (drule bit_imp_le_length) simp

lemma set_bit_orders: "set (bit_orders t s) = {s + i | i. bit t i}"
  by (auto simp: bit_orders_def image_iff dest: bit_less_46)

lemma strict_sorted_bit_orders: "sorted_wrt (<) (bit_orders t s)"
  unfolding bit_orders_def
  by (simp add: sorted_wrt_map sorted_wrt_filter del: upt_Suc)

lemma sorted_wrt_less_unique:
  "sorted_wrt (<) xs \<Longrightarrow> sorted_wrt (<) ys \<Longrightarrow> set xs = set ys \<Longrightarrow> xs = (ys :: nat list)"
  by (simp add: strict_sorted_equal)

lemma bit_orders_zero [simp]: "bit_orders 0 s = []"
  by (simp add: bit_orders_def)

lemma bit_orders_step:
  "bit_orders t s = (if bit t 0 then [s] else []) @ bit_orders (drop_bit 1 t) (Suc s)"
proof (rule sorted_wrt_less_unique)
  show "sorted_wrt (<) (bit_orders t s)" by (rule strict_sorted_bit_orders)
  have "\<forall>x \<in> set (bit_orders (drop_bit 1 t) (Suc s)). s < x"
    by (auto simp: set_bit_orders)
  then show "sorted_wrt (<) ((if bit t 0 then [s] else []) @ bit_orders (drop_bit 1 t) (Suc s))"
    by (simp add: strict_sorted_bit_orders)
  show "set (bit_orders t s) = set ((if bit t 0 then [s] else []) @ bit_orders (drop_bit 1 t) (Suc s))"
  proof -
    have "(\<exists>i. x = s + i \<and> bit t i) \<longleftrightarrow> (bit t 0 \<and> x = s) \<or> (\<exists>i. x = Suc s + i \<and> bit t (Suc i))" for x
    proof
      assume "\<exists>i. x = s + i \<and> bit t i"
      then obtain i where i: "x = s + i" "bit t i" by blast
      then show "(bit t 0 \<and> x = s) \<or> (\<exists>i. x = Suc s + i \<and> bit t (Suc i))"
        by (cases i) auto
    next
      assume "(bit t 0 \<and> x = s) \<or> (\<exists>i. x = Suc s + i \<and> bit t (Suc i))"
      then show "\<exists>i. x = s + i \<and> bit t i"
        by (metis add.right_neutral add_Suc_shift)
    qed
    then show ?thesis
      by (auto simp: set_bit_orders bit_drop_bit_eq)
  qed
qed

lemma bit_orders_ge: "x \<in> set (bit_orders t s) \<Longrightarrow> s \<le> x"
  by (auto simp: set_bit_orders)

lemma bit_orders_skip: "\<not> bit t 0 \<Longrightarrow> bit_orders t s = bit_orders (drop_bit 1 t) (Suc s)"
  using bit_orders_step [of t s] by simp

lemma bit_orders_cons: "bit t 0 \<Longrightarrow> bit_orders t s = s # bit_orders (drop_bit 1 t) (Suc s)"
  using bit_orders_step [of t s] by simp

lemma bit_orders_hd: "bit_orders t s = k # ks \<Longrightarrow> bit t 0 \<longleftrightarrow> k = s"
proof
  assume "bit t 0" and "bit_orders t s = k # ks"
  then show "k = s" using bit_orders_cons [of t s] by simp
next
  assume "k = s" and e: "bit_orders t s = k # ks"
  show "bit t 0"
  proof (rule ccontr)
    assume "\<not> bit t 0"
    then have "bit_orders t s = bit_orders (drop_bit 1 t) (Suc s)" by (rule bit_orders_skip)
    with e have "k \<in> set (bit_orders (drop_bit 1 t) (Suc s))" by simp
    then have "Suc s \<le> k" by (rule bit_orders_ge)
    with \<open>k = s\<close> show False by simp
  qed
qed

lemma bit_orders_empty_iff: "bit_orders t s = [] \<longleftrightarrow> t = 0"
proof
  assume "bit_orders t s = []"
  then have "set (bit_orders t s) = {}" by simp
  then have "\<forall>i. \<not> bit t i" by (auto simp: set_bit_orders)
  then show "t = 0" by (simp add: bit_eq_iff)
qed simp

lemma drop_bit_set_bit_0: "drop_bit 1 (set_bit 0 (w :: 46 word)) = drop_bit 1 w"
  by (rule bit_eqI) (simp add: bit_simps)

lemma bit_orders_set_bit_0:
  "\<not> bit w 0 \<Longrightarrow> bit_orders (set_bit 0 w) s = s # bit_orders w s"
proof -
  assume n: "\<not> bit w 0"
  have "bit (set_bit 0 w) 0" by (simp add: bit_simps)
  then have "bit_orders (set_bit 0 w) s = s # bit_orders (drop_bit 1 (set_bit 0 w)) (Suc s)"
    by (rule bit_orders_cons)
  also have "\<dots> = s # bit_orders w s"
    using n drop_bit_set_bit_0 [of w] bit_orders_skip [of w s] by simp
  finally show ?thesis .
qed

lemma bit_orders_push_bit:
  assumes "n \<le> s" and "\<And>i. bit t i \<Longrightarrow> s + i < 46"
  shows "bit_orders (push_bit n t) (s - n) = bit_orders t s"
proof (rule sorted_wrt_less_unique)
  show "set (bit_orders (push_bit n t) (s - n)) = set (bit_orders t s)"
  proof (rule set_eqI)
    fix x
    have "(\<exists>i. x = s - n + i \<and> n \<le> i \<and> i < 46 \<and> bit t (i - n)) \<longleftrightarrow> (\<exists>j. x = s + j \<and> bit t j)"
    proof
      assume "\<exists>i. x = s - n + i \<and> n \<le> i \<and> i < 46 \<and> bit t (i - n)"
      then obtain i where "x = s - n + i" "n \<le> i" "bit t (i - n)" by blast
      with assms(1) have "x = s + (i - n) \<and> bit t (i - n)" by simp
      then show "\<exists>j. x = s + j \<and> bit t j" ..
    next
      assume "\<exists>j. x = s + j \<and> bit t j"
      then obtain j where j: "x = s + j" "bit t j" by blast
      with assms have "x = s - n + (j + n) \<and> n \<le> j + n \<and> j + n < 46 \<and> bit t (j + n - n)"
        by fastforce
      then show "\<exists>i. x = s - n + i \<and> n \<le> i \<and> i < 46 \<and> bit t (i - n)" ..
    qed
    then show "x \<in> set (bit_orders (push_bit n t) (s - n)) \<longleftrightarrow> x \<in> set (bit_orders t s)"
      by (simp add: set_bit_orders bit_simps)
  qed
qed (rule strict_sorted_bit_orders)+

lemma shape_wf_bits: "shape_wf shape \<Longrightarrow> bit (trees shape) i \<Longrightarrow> smallestTreeSize shape + i < 46"
  by (auto simp: shape_wf_def orders_of_def set_bit_orders)

lemma not_bit_push_bit_0: "0 < n \<Longrightarrow> \<not> bit (push_bit n (t :: 46 word)) 0"
  by (simp add: bit_push_bit_iff)

lemma LeonardoHeapAdd_shape_orders:
  assumes wf: "shape_wf shape" and fo: "forest_orders (orders_of shape)"
  shows "orders_of (LeonardoHeapAdd_shape shape) = add_orders (orders_of shape) \<and>
         bit (trees (LeonardoHeapAdd_shape shape)) 0"
proof -
  define t where "t = trees shape"
  define s where "s = smallestTreeSize shape"
  have ov: "bit t i \<Longrightarrow> s + i < 46" for i
    using shape_wf_bits [OF wf] by (simp add: t_def s_def)
  show ?thesis
  proof (cases "bit t 0")
    case False
    with wf have t0: "t = 0" by (simp add: shape_wf_def t_def)
    have "bit_orders (set_bit 0 (0 :: 46 word)) 1 = [1]"
      using bit_orders_set_bit_0 [of 0 1] by simp
    with t0 show ?thesis
      by (simp add: orders_of_def LeonardoHeapAdd_shape_def t_def [symmetric] bit_simps)
  next
    case b0: True
    define R1 where "R1 = bit_orders (drop_bit 1 t) (Suc s)"
    have o: "orders_of shape = s # R1"
      using b0 bit_orders_cons [of t s] by (simp add: orders_of_def t_def s_def R1_def)
    show ?thesis
    proof (cases "bit t 1")
      case b1: True
      define w where "w = drop_bit 2 t"
      have w: "drop_bit 1 (drop_bit 1 t) = w" by (simp add: w_def numeral_2_eq_2)
      from b1 have "bit (drop_bit 1 t) 0" by (simp add: bit_simps)
      from bit_orders_cons [OF this, of "Suc s"] w
      have R1: "R1 = Suc s # bit_orders w (Suc (Suc s))"
        by (simp add: R1_def)
      with o fo have "\<forall>x \<in> set (bit_orders w (Suc (Suc s))). Suc s + 2 \<le> x"
        by simp
      then have "Suc (Suc s) \<notin> set (bit_orders w (Suc (Suc s)))" by auto
      then have "\<not> bit w 0"
        using bit_orders_cons [of w "Suc (Suc s)"] by auto
      from bit_orders_set_bit_0 [OF this, of "s + 2"]
      have "bit_orders (set_bit 0 w) (s + 2) = (s + 2) # bit_orders w (Suc (Suc s))"
        by simp
      with b0 b1 o R1 show ?thesis
        by (simp add: orders_of_def LeonardoHeapAdd_shape_def t_def [symmetric] s_def [symmetric]
            w_def [symmetric] bit_simps)
    next
      case b1: False
      then have "\<not> bit (drop_bit 1 t) 0" by (simp add: bit_simps)
      from bit_orders_skip [OF this, of "Suc s"]
      have "\<forall>x \<in> set R1. s + 2 \<le> x"
        by (auto simp: R1_def dest: bit_orders_ge)
      then have hd: "R1 = [] \<or> (\<exists>k' ks. R1 = k' # ks \<and> k' \<noteq> s + 1)"
        by (cases R1) auto
      show ?thesis
      proof (cases "s = 1")
        case True
        have "\<not> bit (push_bit 1 t) 0" by (rule not_bit_push_bit_0) simp
        from bit_orders_set_bit_0 [OF this, of 0]
        have "bit_orders (set_bit 0 (push_bit 1 t)) 0 = 0 # bit_orders (push_bit 1 t) (s - 1)"
          using True by simp
        also have "bit_orders (push_bit 1 t) (s - 1) = bit_orders t s"
          using True ov by (intro bit_orders_push_bit) simp_all
        finally have "bit_orders (set_bit 0 (push_bit 1 t)) 0 = 0 # s # R1"
          using o by (simp add: orders_of_def t_def s_def)
        moreover have "add_orders (s # R1) = 0 # s # R1"
          using hd True by auto
        ultimately show ?thesis
          using b0 b1 o True
          by (simp add: orders_of_def LeonardoHeapAdd_shape_def t_def [symmetric]
              s_def [symmetric] bit_simps)
      next
        case False
        have "s \<noteq> 0"
        proof
          assume "s = 0"
          with o fo hd show False by auto
        qed
        with False have s2: "2 \<le> s" by simp
        then have sub: "size_t_sub s 1 = s - 1" by (simp add: size_t_sub_def)
        have "\<not> bit (push_bit (s - 1) t) 0" using s2 by (intro not_bit_push_bit_0) simp
        from bit_orders_set_bit_0 [OF this, of 1]
        have "bit_orders (set_bit 0 (push_bit (s - 1) t)) 1 = 1 # bit_orders (push_bit (s - 1) t) (s - (s - 1))"
          using s2 by simp
        also have "bit_orders (push_bit (s - 1) t) (s - (s - 1)) = bit_orders t s"
          using ov by (intro bit_orders_push_bit) simp_all
        finally have "bit_orders (set_bit 0 (push_bit (s - 1) t)) 1 = 1 # s # R1"
          using o by (simp add: orders_of_def t_def s_def)
        moreover have "add_orders (s # R1) = 1 # s # R1"
          using hd False by auto
        ultimately show ?thesis
          using b0 b1 o False sub
          by (simp add: orders_of_def LeonardoHeapAdd_shape_def t_def [symmetric]
              s_def [symmetric] bit_simps)
      qed
    qed
  qed
qed

lemma orders_of_cons:
  "bit (trees shape) 0 \<Longrightarrow>
   orders_of shape = smallestTreeSize shape #
     bit_orders (drop_bit 1 (trees shape)) (Suc (smallestTreeSize shape))"
  unfolding orders_of_def by (rule bit_orders_cons)

lemma bit_1_iff_next_order:
  assumes "bit (trees shape) 0"
  shows "bit (trees shape) 1 \<longleftrightarrow>
    (case tl (orders_of shape) of k' # _ \<Rightarrow> k' = smallestTreeSize shape + 1 | [] \<Rightarrow> False)"
proof -
  define R1 where "R1 = bit_orders (drop_bit 1 (trees shape)) (Suc (smallestTreeSize shape))"
  have b: "bit (trees shape) 1 = bit (drop_bit 1 (trees shape)) 0"
    by (simp add: bit_simps)
  have t: "tl (orders_of shape) = R1"
    using orders_of_cons [OF assms] by (simp add: R1_def)
  show ?thesis
  proof (cases R1)
    case Nil
    then have "drop_bit 1 (trees shape) = 0"
      by (simp add: R1_def bit_orders_empty_iff)
    with b t Nil show ?thesis by simp
  next
    case (Cons k' ks)
    from bit_orders_hd [OF Cons [unfolded R1_def]] b t Cons show ?thesis by simp
  qed
qed

lemma LeonardoHeapAdd_isLast_threshold:
  assumes b0: "bit (trees shape) 0" and lt: "\<forall>k \<in> set (orders_of shape). k < 46"
    and e: "end < heapEnd"
  shows "LeonardoHeapAdd_isLast end heapEnd shape =
    Some (heapEnd - (end + 1) < final_threshold (orders_of shape))"
proof -
  define s where "s = smallestTreeSize shape"
  obtain R1 where o: "orders_of shape = s # R1"
    using orders_of_cons [OF b0] by (simp add: s_def)
  from e have sub: "size_t_sub heapEnd (end + 1) = heapEnd - (end + 1)"
    by (simp add: size_t_sub_def)
  consider "s = 0" | "s = 1" | "2 \<le> s" by linarith
  then show ?thesis
  proof cases
    case 1
    with e o show ?thesis
      by (auto simp: LeonardoHeapAdd_isLast_def s_def [symmetric])
  next
    case 2
    have "bit (trees shape) 1 \<longleftrightarrow> (case R1 of k' # _ \<Rightarrow> k' = 2 | [] \<Rightarrow> False)"
      using bit_1_iff_next_order [OF b0] o 2 unfolding s_def by (auto split: list.splits)
    with 2 e o show ?thesis
      by (auto simp: LeonardoHeapAdd_isLast_def s_def [symmetric] split: list.splits)
  next
    case 3
    from lt o have "s < 46" by simp
    with 3 have "leonardo_at (s - 1) = Some (leonardo (s - 1))"
      by (intro leonardo_at_leonardo) simp
    with 3 o sub show ?thesis
      by (simp add: LeonardoHeapAdd_isLast_def s_def [symmetric])
  qed
qed

lemma LeonardoHeapAdd_spec:
  assumes "shape_wf shape" and "forest_orders (orders_of shape)"
    and "\<forall>k \<in> set (add_orders (orders_of shape)). k < 46" and "end < heapEnd"
  shows "LeonardoHeapAdd cmp a end heapEnd shape = spec_heap_add final_threshold cmp a end heapEnd shape"
proof -
  define shape' where "shape' = LeonardoHeapAdd_shape shape"
  from LeonardoHeapAdd_shape_orders [OF assms(1,2)]
  have o: "orders_of shape' = add_orders (orders_of shape)" and b0: "bit (trees shape') 0"
    by (simp_all add: shape'_def)
  with assms(3) have "\<forall>k \<in> set (orders_of shape'). k < 46" by simp
  from LeonardoHeapAdd_isLast_threshold [OF b0 this assms(4)]
  show ?thesis
    by (simp add: LeonardoHeapAdd_def spec_heap_add_def shape'_def [symmetric] Let_def
        map_option_case split: option.splits)
qed

text \<open>
  What \<open>LeonardoHeapAdd\<close> does on a well-formed shape: it updates the forest by the first
  of the four cases that applies (empty forest: a tree of order 1; the two smallest orders
  \<open>k\<close> and \<open>k + 1\<close>: one tree of order \<open>k + 2\<close>; smallest order 1: a new tree of order 0;
  otherwise: a new tree of order 1), and then runs the full rectify exactly when fewer
  elements remain than \<open>final_threshold\<close> says (1 for a new tree of order 0; 1 or 2 for
  order 1, 1 when a tree of order 2 stands next to it; \<open>L(k - 1) + 1\<close> for an order
  \<open>k \<ge> 2\<close>), and the single-tree rebalance otherwise.
\<close>

theorem LeonardoHeapAdd_four_cases:
  assumes "shape_wf shape" and "forest_orders (orders_of shape)"
    and "\<forall>k \<in> set (add_orders (orders_of shape)). k < kNumLeonardoNumbers"
    and "end < heapEnd"
  shows "orders_of (LeonardoHeapAdd_shape shape) = add_orders (orders_of shape) \<and>
         LeonardoHeapAdd cmp a end heapEnd shape =
           spec_heap_add final_threshold cmp a end heapEnd shape"
proof -
  from assms(3) have "\<forall>k \<in> set (add_orders (orders_of shape)). k < 46"
    by (simp add: kNumLeonardoNumbers_def)
  with assms show ?thesis
    using LeonardoHeapAdd_shape_orders [of shape] LeonardoHeapAdd_spec [of shape "end" heapEnd cmp a]
    by blast
qed

theorem LeonardoHeapAdd_four_cases_example:
  "orders_of (LeonardoHeapAdd_shape \<lparr>trees = 11, smallestTreeSize = 0\<rparr>) =
     add_orders (orders_of \<lparr>trees = 11, smallestTreeSize = 0\<rparr>) \<and>
   LeonardoHeapAdd (<) [3, 2, 5, 4, 9, 6, 7, 1, 0 :: nat] 7 9 \<lparr>trees = 11, smallestTreeSize = 0\<rparr> =
     spec_heap_add final_threshold (<) [3, 2, 5, 4, 9, 6, 7, 1, 0 :: nat] 7 9
       \<lparr>trees = 11, smallestTreeSize = 0\<rparr>"
proof -
  have "shape_wf \<lparr>trees = 11, smallestTreeSize = 0\<rparr>"
    and "forest_orders (orders_of \<lparr>trees = 11, smallestTreeSize = 0\<rparr>)"
    and "\<forall>k \<in> set (add_orders (orders_of \<lparr>trees = 11, smallestTreeSize = 0\<rparr>)).
           k < kNumLeonardoNumbers"
    and "(7 :: nat) < 9"
    by code_simp+
  then show ?thesis by (rule LeonardoHeapAdd_four_cases)
qed

text \<open>
  Claim C5: the shape update is the four cases of the claim (\<open>LeonardoHeapAdd_four_cases\<close>),
  but the full rectify is not run exactly when the new rightmost tree is final. The
  source's comments state the claim's test as the intent ("see if this tree is at the
  final size it's going to take", "If this isn't a final heap, then just rebalance the
  current heap"), and the branch for a tree of order 1 looks at the left neighbour ("not
  about to be merged"); the branch for the orders from 2 on does not. \<open>Smoothsort\<close> on the
  9 elements \<open>[3, 2, 5, 4, 9, 6, 7, 1, 0]\<close> reaches the insert at offset 7 with trees of
  orders 0, 1 and 3 (the first conjunct). The insert merges the two small trees into a tree
  of order 2 next to the tree of order 3, with one element left, and one element is all
  the next merge needs: the insert after it merges the two trees into one of order 4. The
  new tree is not final, the claim asks for the single-tree rebalance (which gives
  \<open>[3, 2, 5, 4, 9, 6, 1, 7, 0]\<close>), and the code runs the full rectify, which carries the
  root across the tree boundary (and gives \<open>[1, 2, 3, 4, 5, 6, 7, 9, 0]\<close>).
\<close>

theorem LeonardoHeapAdd_rectifies_unfinished_tree:
  "Smoothsort_build (<) 9 [3, 2, 5, 4, 9, 6, 7, 1, 0 :: nat] 0 7 \<lparr>trees = 0, smallestTreeSize = 0\<rparr>
     = Some ([3, 2, 5, 4, 9, 6, 7, 1, 0], \<lparr>trees = 11, smallestTreeSize = 0\<rparr>) \<and>
   orders_of \<lparr>trees = 11, smallestTreeSize = 0\<rparr> = [0, 1, 3] \<and>
   orders_of (LeonardoHeapAdd_shape \<lparr>trees = 11, smallestTreeSize = 0\<rparr>) = [2, 3] \<and>
   next_merge_need [2, 3] = 1 \<and> final_threshold [2, 3] = 2 \<and>
   orders_of (LeonardoHeapAdd_shape \<lparr>trees = 3, smallestTreeSize = 2\<rparr>) = [4] \<and>
   LeonardoHeapAdd (<) [3, 2, 5, 4, 9, 6, 7, 1, 0 :: nat] 7 9 \<lparr>trees = 11, smallestTreeSize = 0\<rparr>
     = Some ([1, 2, 3, 4, 5, 6, 7, 9, 0], \<lparr>trees = 3, smallestTreeSize = 2\<rparr>) \<and>
   LeonardoHeapRectify (<) [3, 2, 5, 4, 9, 6, 7, 1, 0 :: nat] 8 \<lparr>trees = 3, smallestTreeSize = 2\<rparr>
     = Some [1, 2, 3, 4, 5, 6, 7, 9, 0] \<and>
   RebalanceSingleHeap (<) [3, 2, 5, 4, 9, 6, 7, 1, 0 :: nat] 7 2
     = Some [3, 2, 5, 4, 9, 6, 1, 7, 0] \<and>
   spec_heap_add next_merge_need (<) [3, 2, 5, 4, 9, 6, 7, 1, 0 :: nat] 7 9
       \<lparr>trees = 11, smallestTreeSize = 0\<rparr>
     = Some ([3, 2, 5, 4, 9, 6, 1, 7, 0], \<lparr>trees = 3, smallestTreeSize = 2\<rparr>)"
  by code_simp

section \<open>The shape invariant and termination\<close>

lemma forest_size_simps [simp]:
  "forest_size [] = 0" "forest_size (k # ks) = leonardo k + forest_size ks"
  "forest_size (xs @ ys) = forest_size xs + forest_size ys"
  by (simp_all add: forest_size_def)

lemma forest_size_pos: "ks \<noteq> [] \<Longrightarrow> 0 < forest_size ks"
  by (cases ks) simp_all

lemma forest_size_add_orders:
  "forest_orders ks \<Longrightarrow> forest_size (add_orders ks) = Suc (forest_size ks)"
  by (induction ks rule: add_orders.induct) auto

lemma forest_size_remove_orders:
  "ks \<noteq> [] \<Longrightarrow> Suc (forest_size (remove_orders ks)) = forest_size ks"
proof (cases ks)
  case (Cons k rest)
  show ?thesis
  proof (cases "k \<le> 1")
    case True
    then have "leonardo k = 1" by (cases k rule: leonardo.cases) simp_all
    with True Cons show ?thesis by simp
  next
    case False
    then have "leonardo k = leonardo (k - 1) + leonardo (k - 2) + 1"
      by (intro leonardo_rec) simp
    with False Cons show ?thesis by simp
  qed
qed simp

lemma forest_orders_add_orders: "forest_orders ks \<Longrightarrow> forest_orders (add_orders ks)"
proof (induction ks rule: add_orders.induct)
  case (2 k k' ks)
  then show ?case by (cases ks) auto
qed auto

lemma forest_orders_tl: "forest_orders (k # ks) \<Longrightarrow> forest_orders ks"
proof (cases ks)
  case (Cons k' ks')
  assume "forest_orders (k # ks)"
  with Cons show ?thesis by (cases ks') auto
qed simp

lemma forest_orders_remove_orders: "forest_orders ks \<Longrightarrow> forest_orders (remove_orders ks)"
proof (cases ks)
  case (Cons k rest)
  assume fo: "forest_orders ks"
  show ?thesis
  proof (cases "k \<le> 1")
    case True
    with fo Cons show ?thesis by (auto dest: forest_orders_tl)
  next
    case False
    with fo Cons show ?thesis by (cases rest) auto
  qed
qed simp

lemma leonardo_46: "leonardo 46 = 5942430145"
proof -
  have "leonardo 46 = leonardo 45 + leonardo 44 + 1"
    using leonardo_rec [of 46] by simp
  moreover have "leonardo 45 = 3672623805"
    using kLeonardoNumbers_leonardo [of 45] by (simp add: kLeonardoNumbers_def)
  moreover have "leonardo 44 = 2269806339"
    using kLeonardoNumbers_leonardo [of 44] by (simp add: kLeonardoNumbers_def)
  ultimately show ?thesis by simp
qed

lemma leonardo_le_forest_size: "k \<in> set ks \<Longrightarrow> leonardo k \<le> forest_size ks"
  by (induction ks) auto

lemma order_less_46:
  assumes "k \<in> set ks" and "forest_size ks < leonardo 46"
  shows "k < 46"
proof (rule ccontr)
  assume "\<not> k < 46"
  then have "leonardo 46 \<le> leonardo k" by (intro leonardo_mono) simp
  moreover from assms(1) have "leonardo k \<le> forest_size ks"
    by (rule leonardo_le_forest_size)
  ultimately show False using assms(2) by linarith
qed

lemma drop_bit_1_nonzero: "(w :: 46 word) \<noteq> 0 \<Longrightarrow> \<not> bit w 0 \<Longrightarrow> drop_bit 1 w \<noteq> 0"
proof
  assume w: "w \<noteq> 0" "\<not> bit w 0" and d: "drop_bit 1 w = 0"
  have "\<not> bit w i" for i
  proof (cases i)
    case 0
    with w show ?thesis by simp
  next
    case (Suc j)
    from d have "\<not> bit (drop_bit 1 w) j" by simp
    with Suc show ?thesis by (simp add: bit_simps)
  qed
  then have "w = 0" by (simp add: bit_eq_iff)
  with w show False by simp
qed

lemma unat_drop_bit_1_less: "(w :: 46 word) \<noteq> 0 \<Longrightarrow> unat (drop_bit 1 w) < unat w"
proof -
  assume "w \<noteq> 0"
  then have "unat w \<noteq> 0" by (simp add: unat_eq_0)
  then have "unat w div 2 < unat w" by simp
  then show ?thesis by (simp add: drop_bit_eq_div unat_div)
qed

lemma shift_to_previous_tree_orders_aux:
  "drop_bit 1 (trees shape) \<noteq> 0 \<Longrightarrow>
   \<exists>shape'. shift_to_previous_tree shape = Some shape' \<and> bit (trees shape') 0 \<and>
     orders_of shape' = bit_orders (drop_bit 1 (trees shape)) (Suc (smallestTreeSize shape))"
proof (induction "unat (trees shape)" arbitrary: shape rule: less_induct)
  case less
  define shape1 where "shape1 = shape\<lparr>trees := drop_bit 1 (trees shape),
    smallestTreeSize := smallestTreeSize shape + 1\<rparr>"
  have unf: "shift_to_previous_tree shape =
    (if \<not> bit (trees shape1) 0 then shift_to_previous_tree shape1 else Some shape1)"
    by (subst shift_to_previous_tree.simps) (simp add: shape1_def Let_def)
  have t1: "trees shape1 = drop_bit 1 (trees shape)"
    and s1: "smallestTreeSize shape1 = Suc (smallestTreeSize shape)"
    by (simp_all add: shape1_def)
  show ?case
  proof (cases "bit (trees shape1) 0")
    case True
    with unf t1 s1 show ?thesis by (simp add: orders_of_def)
  next
    case False
    from less.prems t1 have nz: "trees shape1 \<noteq> 0" by simp
    from less.prems have "trees shape \<noteq> 0" by auto
    then have "unat (trees shape1) < unat (trees shape)"
      unfolding t1 by (rule unat_drop_bit_1_less)
    moreover from nz False have "drop_bit 1 (trees shape1) \<noteq> 0"
      by (rule drop_bit_1_nonzero)
    ultimately obtain shape' where r: "shift_to_previous_tree shape1 = Some shape'"
      "bit (trees shape') 0"
      "orders_of shape' = bit_orders (drop_bit 1 (trees shape1)) (Suc (smallestTreeSize shape1))"
      using less.hyps by blast
    from False have "bit_orders (trees shape1) (Suc (smallestTreeSize shape)) =
      bit_orders (drop_bit 1 (trees shape1)) (Suc (Suc (smallestTreeSize shape)))"
      by (rule bit_orders_skip)
    with r unf False t1 s1 show ?thesis by simp
  qed
qed

lemma shape_wf_cons:
  assumes "shape_wf shape" and "orders_of shape = k # rest"
  shows "bit (trees shape) 0" and "smallestTreeSize shape = k" and "k < 46"
    and "bit_orders (drop_bit 1 (trees shape)) (Suc k) = rest"
proof -
  from assms(2) have "trees shape \<noteq> 0"
    by (auto simp: orders_of_def)
  with assms(1) show b: "bit (trees shape) 0" by (simp add: shape_wf_def)
  from orders_of_cons [OF b] assms(2) show s: "smallestTreeSize shape = k" by simp
  from assms show "k < 46" by (simp add: shape_wf_def)
  from orders_of_cons [OF b] assms(2) s
  show "bit_orders (drop_bit 1 (trees shape)) (Suc k) = rest" by simp
qed

lemma shift_to_previous_tree_orders:
  assumes "shape_wf shape" and "orders_of shape = k # k' # rest"
  shows "\<exists>shape'. shift_to_previous_tree shape = Some shape' \<and> shape_wf shape' \<and>
     orders_of shape' = k' # rest"
proof -
  note c = shape_wf_cons [OF assms]
  from c(4) have "drop_bit 1 (trees shape) \<noteq> 0" by auto
  from shift_to_previous_tree_orders_aux [OF this] c(2,4)
  obtain shape' where "shift_to_previous_tree shape = Some shape'" "bit (trees shape') 0"
    "orders_of shape' = k' # rest"
    by auto
  moreover from assms have "\<forall>x \<in> set (k' # rest). x < 46"
    by (simp add: shape_wf_def)
  ultimately show ?thesis by (auto simp: shape_wf_def)
qed

lemma LeonardoHeapRemove_scan_orders_aux:
  "orders_of (LeonardoHeapRemove_scan shape) =
     bit_orders (drop_bit 1 (trees shape)) (Suc (smallestTreeSize shape)) \<and>
   (trees (LeonardoHeapRemove_scan shape) = 0 \<or> bit (trees (LeonardoHeapRemove_scan shape)) 0)"
proof (induction shape rule: LeonardoHeapRemove_scan.induct)
  case (1 shape)
  define shape1 where "shape1 = shape\<lparr>trees := drop_bit 1 (trees shape),
    smallestTreeSize := smallestTreeSize shape + 1\<rparr>"
  have unf: "LeonardoHeapRemove_scan shape =
    (if trees shape1 \<noteq> 0 \<and> \<not> bit (trees shape1) 0 then LeonardoHeapRemove_scan shape1 else shape1)"
    by (subst LeonardoHeapRemove_scan.simps) (simp add: shape1_def Let_def)
  have t1: "trees shape1 = drop_bit 1 (trees shape)"
    and s1: "smallestTreeSize shape1 = Suc (smallestTreeSize shape)"
    by (simp_all add: shape1_def)
  show ?case
  proof (cases "trees shape1 \<noteq> 0 \<and> \<not> bit (trees shape1) 0")
    case True
    from "1.IH" [OF shape1_def True]
    have "orders_of (LeonardoHeapRemove_scan shape1) =
        bit_orders (drop_bit 1 (trees shape1)) (Suc (smallestTreeSize shape1))"
      and "trees (LeonardoHeapRemove_scan shape1) = 0 \<or> bit (trees (LeonardoHeapRemove_scan shape1)) 0"
      by simp_all
    moreover from True have "bit_orders (trees shape1) (Suc (smallestTreeSize shape)) =
      bit_orders (drop_bit 1 (trees shape1)) (Suc (Suc (smallestTreeSize shape)))"
      by (intro bit_orders_skip) simp
    ultimately show ?thesis using unf True t1 s1 by simp
  next
    case False
    with unf t1 s1 show ?thesis by (auto simp: orders_of_def)
  qed
qed

lemma LeonardoHeapRemove_scan_orders:
  assumes "shape_wf shape" and "orders_of shape = k # rest"
  shows "orders_of (LeonardoHeapRemove_scan shape) = rest"
    and "shape_wf (LeonardoHeapRemove_scan shape)"
proof -
  note c = shape_wf_cons [OF assms]
  from LeonardoHeapRemove_scan_orders_aux [of shape] c(2,4)
  show o: "orders_of (LeonardoHeapRemove_scan shape) = rest" by simp
  from assms have "\<forall>x \<in> set rest. x < 46"
    by (simp add: shape_wf_def)
  with o LeonardoHeapRemove_scan_orders_aux [of shape]
  show "shape_wf (LeonardoHeapRemove_scan shape)" by (simp add: shape_wf_def)
qed

lemma LeonardoHeapRemove_split_orders:
  assumes wf: "shape_wf shape" and o: "orders_of shape = k # rest" and k2: "2 \<le> k"
  defines "shape' \<equiv> shape\<lparr>trees := set_bit 1 (set_bit 0 (push_bit 2 (unset_bit 0 (trees shape)))),
                               smallestTreeSize := smallestTreeSize shape - 2\<rparr>"
  defines "allButLast \<equiv> shape'\<lparr>smallestTreeSize := smallestTreeSize shape' + 1,
                                   trees := drop_bit 1 (trees shape')\<rparr>"
  shows "orders_of shape' = (k - 2) # (k - 1) # rest" and "shape_wf shape'"
    and "orders_of allButLast = (k - 1) # rest" and "shape_wf allButLast"
proof -
  note c = shape_wf_cons [OF wf o]
  define t where "t = trees shape"
  define u where "u = unset_bit 0 t"
  define new where "new = set_bit 1 (set_bit 0 (push_bit 2 u))"
  have ov: "bit t i \<Longrightarrow> k + i < 46" for i
    using shape_wf_bits [OF wf, of i] c(2) by (simp add: t_def)
  have u0: "\<not> bit u 0" by (simp add: u_def bit_simps)
  have "drop_bit 1 u = drop_bit 1 t"
    by (rule bit_eqI) (simp add: u_def bit_simps)
  with bit_orders_skip [OF u0, of k] c(4) have ur: "bit_orders u k = rest"
    by (simp add: t_def)
  have uov: "bit u i \<Longrightarrow> k + i < 46" for i
    using ov [of i] by (simp add: u_def bit_simps)
  have n0: "bit new 0" by (simp add: new_def bit_simps)
  have n1: "bit (drop_bit 1 new) 0" by (simp add: new_def bit_simps)
  have d2: "drop_bit 1 (drop_bit 1 new) = u"
  proof (rule bit_eqI)
    fix i
    assume "possible_bit TYPE(46 word) i"
    have "bit (drop_bit 1 (drop_bit 1 new)) i = (i + 2 < 46 \<and> bit u i)"
      by (auto simp: new_def bit_simps)
    also have "\<dots> = bit u i"
      using uov [of i] k2 by auto
    finally show "bit (drop_bit 1 (drop_bit 1 new)) i = bit u i" .
  qed
  have k1: "Suc (k - 1) = k" "Suc (k - 2) = k - 1" using k2 by simp_all
  have a: "bit_orders (drop_bit 1 new) (k - 1) = (k - 1) # rest"
    using bit_orders_cons [OF n1, of "k - 1"] d2 ur k1 by simp
  have n: "bit_orders new (k - 2) = (k - 2) # (k - 1) # rest"
    using bit_orders_cons [OF n0, of "k - 2"] a k1 by simp
  have tr: "trees shape' = new" "smallestTreeSize shape' = k - 2"
    "trees allButLast = drop_bit 1 new" "smallestTreeSize allButLast = k - 1"
    using c(2) k2 by (simp_all add: shape'_def allButLast_def new_def u_def t_def)
  from n tr show o': "orders_of shape' = (k - 2) # (k - 1) # rest"
    by (simp add: orders_of_def)
  from a tr show oa: "orders_of allButLast = (k - 1) # rest"
    by (simp add: orders_of_def)
  from wf o have lt: "k < 46" "\<forall>x \<in> set rest. x < 46"
    by (simp_all add: shape_wf_def)
  from lt have lt2: "k - 2 < 46" "k - 1 < 46" by linarith+
  from o' lt lt2 n0 tr show "shape_wf shape'"
    by (simp add: shape_wf_def)
  from oa lt lt2 n1 tr show "shape_wf allButLast"
    by (simp add: shape_wf_def)
qed

lemma deref_Some: "i < length a \<Longrightarrow> deref a i = Some (a ! i)"
  by (simp add: deref_def)

lemma LargerChild_eq:
  assumes "2 \<le> k" and "k < 46" and "leonardo k \<le> root + 1" and "root < length a"
  shows "LargerChild cmp a root k =
    Some (if cmp (a ! (root - 1 - leonardo (k - 2))) (a ! (root - 1)) then root - 1
          else root - 1 - leonardo (k - 2))"
proof -
  from assms leonardo_rec [of k] have r: "leonardo (k - 2) + 1 \<le> root"
    using leonardo_pos [of "k - 1"] by linarith
  with assms have f: "FirstChild root k = Some (root - 1 - leonardo (k - 2))"
    and s: "SecondChild root = Some (root - 1)"
    by (simp_all add: FirstChild_eq SecondChild_eq)
  from assms have d: "deref a (root - 1 - leonardo (k - 2)) = Some (a ! (root - 1 - leonardo (k - 2)))"
    "deref a (root - 1) = Some (a ! (root - 1))"
    by (simp_all add: deref_def)
  show ?thesis using f s d by (simp add: LargerChild_def)
qed

lemma LeonardoHeapRectify_loop_step:
  assumes wf: "shape_wf shape" and o: "orders_of shape = k # rest"
    and sz: "forest_size (k # rest) = itr + 1" and len: "itr < length a"
  shows "LeonardoHeapRectify_loop cmp a itr shape =
    (if rest = [] then RebalanceSingleHeap cmp a itr k
     else
       let first = itr - 1 - leonardo (k - 2); second = itr - 1;
           largeChild = (if cmp (a ! first) (a ! second) then second else first);
           toCompare = (if 1 < k \<and> cmp (a ! itr) (a ! largeChild) then largeChild else itr);
           priorHeap = itr - leonardo k
       in if \<not> cmp (a ! toCompare) (a ! priorHeap) then RebalanceSingleHeap cmp a itr k
          else shift_to_previous_tree shape \<bind>
            (\<lambda>shape'. LeonardoHeapRectify_loop cmp (iter_swap a itr priorHeap) priorHeap shape'))"
proof -
  note c = shape_wf_cons [OF wf o]
  have l: "leonardo_at (smallestTreeSize shape) = Some (leonardo k)"
    using c(2,3) by (simp add: leonardo_at_leonardo)
  have s: "smallestTreeSize shape = k" by (rule c(2))
  show ?thesis
  proof (cases "rest = []")
    case True
    with sz have "itr = leonardo k - 1" by simp
    with True l s show ?thesis
      unfolding LeonardoHeapRectify_loop.simps [of cmp a itr shape] by simp
  next
    case False
    then have "0 < forest_size rest" by (rule forest_size_pos)
    with sz leonardo_pos [of k] have ge: "leonardo k \<le> itr" and ne: "itr \<noteq> leonardo k - 1"
      unfolding forest_size_simps by linarith+
    define first where "first = itr - 1 - leonardo (k - 2)"
    define second where "second = itr - 1"
    define largeChild where "largeChild = (if cmp (a ! first) (a ! second) then second else first)"
    define toCompare where
      "toCompare = (if 1 < k \<and> cmp (a ! itr) (a ! largeChild) then largeChild else itr)"
    define priorHeap where "priorHeap = itr - leonardo k"
    have lc: "LargerChild cmp a itr k = Some largeChild" if "1 < k"
      using that c(3) ge len LargerChild_eq [of k itr a cmp]
      by (simp add: largeChild_def first_def second_def)
    have "largeChild \<le> itr" by (simp add: largeChild_def first_def second_def)
    with len have dl: "deref a largeChild = Some (a ! largeChild)"
      and di: "deref a itr = Some (a ! itr)"
      by (simp_all add: deref_def)
    have pm: "iter_minus itr (leonardo k) = Some priorHeap"
      using ge by (simp add: iter_minus_def priorHeap_def)
    have dp: "deref a priorHeap = Some (a ! priorHeap)"
      using len by (simp add: deref_def priorHeap_def)
    have "LeonardoHeapRectify_loop cmp a itr shape =
      (if \<not> cmp (a ! toCompare) (a ! priorHeap) then RebalanceSingleHeap cmp a itr k
       else shift_to_previous_tree shape \<bind>
         (\<lambda>shape'. LeonardoHeapRectify_loop cmp (iter_swap a itr priorHeap) priorHeap shape'))"
    proof (cases "1 < k")
      case True
      show ?thesis
        unfolding LeonardoHeapRectify_loop.simps [of cmp a itr shape]
        using l s ne lc [OF True] dl di pm dp True by (simp add: toCompare_def)
    next
      case False
      show ?thesis
        unfolding LeonardoHeapRectify_loop.simps [of cmp a itr shape]
        using l s ne di pm dp False by (simp add: toCompare_def)
    qed
    with False show ?thesis
      by (simp add: Let_def first_def second_def largeChild_def toCompare_def priorHeap_def)
  qed
qed

lemma LeonardoHeapRectify_loop_frame:
  assumes "shape_wf shape" and "orders_of shape = ks" and "ks \<noteq> []"
    and "forest_size ks = itr + 1" and "itr < length a"
  shows "\<exists>a'. LeonardoHeapRectify_loop cmp a itr shape = Some a' \<and> length a' = length a \<and>
    mset a' = mset a \<and> (\<forall>i. itr < i \<longrightarrow> a' ! i = a ! i)"
  using assms
proof (induction ks arbitrary: a itr shape)
  case Nil
  then show ?case by simp
next
  case (Cons k rest)
  note wf = Cons.prems(1) and o = Cons.prems(2) and sz = Cons.prems(4) and len = Cons.prems(5)
  note c = shape_wf_cons [OF wf o]
  note step = LeonardoHeapRectify_loop_step [OF wf o sz len, of cmp]
  have fit: "leonardo k \<le> itr + 1" using sz by simp
  from RebalanceSingleHeap_frame [OF c(3) fit len, of cmp]
  obtain b where b: "RebalanceSingleHeap cmp a itr k = Some b" "length b = length a"
    "mset b = mset a" "\<And>i. itr < i \<Longrightarrow> b ! i = a ! i"
    by blast
  show ?case
  proof (cases "rest = []")
    case True
    with step b show ?thesis by simp
  next
    case False
    define first where "first = itr - 1 - leonardo (k - 2)"
    define second where "second = itr - 1"
    define largeChild where "largeChild = (if cmp (a ! first) (a ! second) then second else first)"
    define toCompare where
      "toCompare = (if 1 < k \<and> cmp (a ! itr) (a ! largeChild) then largeChild else itr)"
    define priorHeap where "priorHeap = itr - leonardo k"
    from step False have step': "LeonardoHeapRectify_loop cmp a itr shape =
      (if \<not> cmp (a ! toCompare) (a ! priorHeap) then RebalanceSingleHeap cmp a itr k
       else shift_to_previous_tree shape \<bind>
         (\<lambda>shape'. LeonardoHeapRectify_loop cmp (iter_swap a itr priorHeap) priorHeap shape'))"
      by (simp add: Let_def first_def second_def largeChild_def toCompare_def priorHeap_def)
    show ?thesis
    proof (cases "cmp (a ! toCompare) (a ! priorHeap)")
      case False
      with step' b show ?thesis by simp
    next
      case True
      from \<open>rest \<noteq> []\<close> obtain k' rest' where r: "rest = k' # rest'" by (cases rest) auto
      from shift_to_previous_tree_orders [OF wf o [unfolded r]]
      obtain shape' where sh: "shift_to_previous_tree shape = Some shape'" "shape_wf shape'"
        "orders_of shape' = rest"
        using r by auto
      from \<open>rest \<noteq> []\<close> have "0 < forest_size rest" by (rule forest_size_pos)
      with sz leonardo_pos [of k] have p: "forest_size rest = priorHeap + 1" "priorHeap < itr"
        unfolding forest_size_simps priorHeap_def by linarith+
      with len have pl: "priorHeap < length (iter_swap a itr priorHeap)" by simp
      from Cons.IH [OF sh(2,3) \<open>rest \<noteq> []\<close> p(1) pl]
      obtain a' where a': "LeonardoHeapRectify_loop cmp (iter_swap a itr priorHeap) priorHeap shape' = Some a'"
        "length a' = length a" "mset a' = mset (iter_swap a itr priorHeap)"
        "\<And>i. priorHeap < i \<Longrightarrow> a' ! i = iter_swap a itr priorHeap ! i"
        by auto
      have "a' ! i = a ! i" if "itr < i" for i
      proof -
        from that p have "a' ! i = iter_swap a itr priorHeap ! i" by (intro a'(4)) simp
        also have "\<dots> = a ! i" using that p len by (simp add: nth_iter_swap)
        finally show ?thesis .
      qed
      moreover have "mset a' = mset a"
        using a'(3) p len by (simp add: mset_iter_swap)
      ultimately show ?thesis using step' True sh(1) a'(1,2) by simp
    qed
  qed
qed

lemma LeonardoHeapRectify_frame:
  assumes "shape_wf shape" and "orders_of shape \<noteq> []"
    and "forest_size (orders_of shape) = e" and "e \<le> length a"
  shows "\<exists>a'. LeonardoHeapRectify cmp a e shape = Some a' \<and> length a' = length a \<and>
    mset a' = mset a \<and> (\<forall>i. e \<le> i \<longrightarrow> a' ! i = a ! i)"
proof -
  from assms(2) have "0 < forest_size (orders_of shape)" by (rule forest_size_pos)
  with assms(3,4) have e: "forest_size (orders_of shape) = (e - 1) + 1" "e - 1 < length a"
    "iter_minus e 1 = Some (e - 1)"
    by (simp_all add: iter_minus_def)
  from LeonardoHeapRectify_loop_frame [OF assms(1) refl assms(2) e(1,2), of cmp]
  obtain a' where "LeonardoHeapRectify_loop cmp a (e - 1) shape = Some a'" "length a' = length a"
    "mset a' = mset a" "\<And>i. e - 1 < i \<Longrightarrow> a' ! i = a ! i"
    by blast
  moreover have "e - 1 < i" if "e \<le> i" for i using that e(1) assms(3) by linarith
  ultimately show ?thesis using e(3) by (simp add: LeonardoHeapRectify_def)
qed

section \<open>LeonardoHeapRectify against the specification's walk\<close>

lemma RebalanceSingleHeap_spec_rebalance:
  assumes "k < 46" and "leonardo k \<le> root + 1" and "root < length a"
  shows "RebalanceSingleHeap cmp a root k = Some (spec_rebalance cmp a root k)"
  using assms
proof (induction k arbitrary: a root rule: less_induct)
  case (less k)
  show ?case
  proof (cases "k \<le> 1")
    case True
    then show ?thesis
      by (simp add: RebalanceSingleHeap_leaf spec_rebalance.simps [of cmp a root k])
  next
    case False
    then have k2: "2 \<le> k" by simp
    define first where "first = root - 1 - leonardo (k - 2)"
    define second where "second = root - 1"
    define b where "b = cmp (a ! first) (a ! second)"
    define lc where "lc = (if b then second else first)"
    define cs where "cs = (if b then k - 2 else k - 1)"
    have step: "RebalanceSingleHeap cmp a root k =
      (if \<not> cmp (a ! root) (a ! lc) then Some a
       else RebalanceSingleHeap cmp (iter_swap a root lc) lc cs)"
      using RebalanceSingleHeap_step [of k root a cmp] k2 less.prems
      by (simp add: Let_def first_def second_def lc_def cs_def b_def)
    have slc: "spec_larger_child cmp a root k = (lc, cs)"
      by (simp add: spec_larger_child_def Let_def first_def second_def lc_def cs_def b_def)
    have sstep: "spec_rebalance cmp a root k =
      (if \<not> cmp (a ! root) (a ! lc) then a
       else spec_rebalance cmp (iter_swap a root lc) lc cs)"
      using False slc by (simp add: spec_rebalance.simps [of cmp a root k] iter_swap_def)
    have r: "leonardo k = leonardo (k - 1) + leonardo (k - 2) + 1"
      using k2 by (rule leonardo_rec)
    have rp: "leonardo (k - 2) < root"
      using less.prems r leonardo_pos [of "k - 1"] by linarith
    note p = leonardo_pos [of "k - 1"] leonardo_pos [of "k - 2"]
    have c: "cs < k" "cs < 46" "leonardo cs \<le> lc + 1" "lc < length a"
      using k2 less.prems r rp p
      by (cases b; simp only: cs_def lc_def first_def second_def if_True if_False; linarith)+
    show ?thesis
    proof (cases "cmp (a ! root) (a ! lc)")
      case False
      with step sstep show ?thesis by simp
    next
      case True
      from c(4) have l: "lc < length (iter_swap a root lc)" by simp
      from less.IH [OF c(1) c(2) c(3) l] step sstep True show ?thesis by simp
    qed
  qed
qed

lemma LeonardoHeapRectify_loop_walk:
  assumes stop: "\<And>v p. stop v p = (\<not> cmp v p)"
  shows "shape_wf shape \<Longrightarrow> orders_of shape = ks \<Longrightarrow> ks \<noteq> [] \<Longrightarrow>
    forest_size ks = itr + 1 \<Longrightarrow> itr < length a \<Longrightarrow>
    LeonardoHeapRectify_loop cmp a itr shape = Some (spec_rectify_walk stop cmp a itr ks)"
proof (induction ks arbitrary: a itr shape)
  case Nil
  then show ?case by simp
next
  case (Cons k rest)
  note wf = Cons.prems(1) and o = Cons.prems(2) and sz = Cons.prems(4) and len = Cons.prems(5)
  note c = shape_wf_cons [OF wf o]
  note step = LeonardoHeapRectify_loop_step [OF wf o sz len, of cmp]
  have fit: "leonardo k \<le> itr + 1" using sz by simp
  note reb = RebalanceSingleHeap_spec_rebalance [OF c(3) fit len, of cmp]
  show ?case
  proof (cases rest)
    case Nil
    with step reb show ?thesis by simp
  next
    case (Cons k' rest')
    define first where "first = itr - 1 - leonardo (k - 2)"
    define second where "second = itr - 1"
    define largeChild where "largeChild = (if cmp (a ! first) (a ! second) then second else first)"
    define toCompare where
      "toCompare = (if 1 < k \<and> cmp (a ! itr) (a ! largeChild) then largeChild else itr)"
    define priorHeap where "priorHeap = itr - leonardo k"
    from step Cons have step': "LeonardoHeapRectify_loop cmp a itr shape =
      (if \<not> cmp (a ! toCompare) (a ! priorHeap) then RebalanceSingleHeap cmp a itr k
       else shift_to_previous_tree shape \<bind>
         (\<lambda>shape'. LeonardoHeapRectify_loop cmp (iter_swap a itr priorHeap) priorHeap shape'))"
      by (simp add: Let_def first_def second_def largeChild_def toCompare_def priorHeap_def)
    have v: "(if 1 < k then larger_value cmp (a ! itr) (a ! fst (spec_larger_child cmp a itr k))
              else a ! itr) = a ! toCompare"
      by (simp add: spec_larger_child_def Let_def larger_value_def toCompare_def largeChild_def
          first_def second_def)
    have sstep: "spec_rectify_walk stop cmp a itr (k # rest) =
      (if \<not> cmp (a ! toCompare) (a ! priorHeap) then spec_rebalance cmp a itr k
       else spec_rectify_walk stop cmp (iter_swap a itr priorHeap) priorHeap rest)"
      unfolding Cons spec_rectify_walk.simps v Let_def stop priorHeap_def iter_swap_def by simp
    show ?thesis
    proof (cases "cmp (a ! toCompare) (a ! priorHeap)")
      case False
      with step' sstep reb show ?thesis by simp
    next
      case True
      from shift_to_previous_tree_orders [OF wf o [unfolded Cons]]
      obtain shape' where sh: "shift_to_previous_tree shape = Some shape'" "shape_wf shape'"
        "orders_of shape' = rest"
        using Cons by auto
      have "rest \<noteq> []" using Cons by simp
      then have "0 < forest_size rest" by (rule forest_size_pos)
      with sz leonardo_pos [of k] have p: "forest_size rest = priorHeap + 1" "priorHeap < itr"
        unfolding forest_size_simps priorHeap_def by linarith+
      with len have pl: "priorHeap < length (iter_swap a itr priorHeap)" by simp
      from Cons.IH [OF sh(2,3) \<open>rest \<noteq> []\<close> p(1) pl] step' sstep True sh(1)
      show ?thesis by simp
    qed
  qed
qed

text \<open>
  Claim C4, as stated, stops the walk when the root of the next tree to the left is not
  smaller than the comparison value. On \<open>[2, 1]\<close>, two trees of orders 1 and 0, the next
  root 2 is not smaller than the comparison value 1, so the walk as stated stops and
  leaves \<open>[2, 1]\<close>; the code exchanges the two roots.
\<close>

theorem LeonardoHeapRectify_stop_counterexample:
  "orders_of \<lparr>trees = 3, smallestTreeSize = 0\<rparr> = [0, 1] \<and>
   LeonardoHeapRectify (<) [2, 1 :: nat] 2 \<lparr>trees = 3, smallestTreeSize = 0\<rparr> = Some [1, 2] \<and>
   spec_rectify (stop_as_claimed (<)) (<) [2, 1 :: nat] 2 [0, 1] = [2, 1]"
  by code_simp

text \<open>
  Claim C4, amended: on a shape whose forest covers the first \<open>end\<close> elements,
  \<open>LeonardoHeapRectify\<close> returns, and its result is that of the specification's walk with
  the stop test turned round. The walk starts at the rightmost tree's root (offset
  \<open>end - 1\<close>) and goes through the trees from right to left, the root of the next tree
  standing \<open>L(k)\<close> places before the root of a tree of order \<open>k\<close>; at each tree it forms the
  comparison value (the root or, for an order above 1, the larger of the root and its
  larger child), stops at the leftmost tree or when the root of the next tree to the left
  is not larger than the comparison value, and otherwise exchanges the two roots and
  continues; finally it rebalances the tree in which it stopped.
\<close>

theorem LeonardoHeapRectify_is_spec_rectify:
  assumes "shape_wf shape" and "orders_of shape \<noteq> []"
    and "forest_size (orders_of shape) = end" and "end \<le> length a"
  shows "LeonardoHeapRectify cmp a end shape =
    Some (spec_rectify (stop_as_amended cmp) cmp a end (orders_of shape))"
proof -
  from assms(2) have "0 < forest_size (orders_of shape)" by (rule forest_size_pos)
  with assms(3,4) have e: "forest_size (orders_of shape) = (end - 1) + 1" "end - 1 < length a"
    "iter_minus end 1 = Some (end - 1)"
    by (simp_all add: iter_minus_def)
  have "LeonardoHeapRectify_loop cmp a (end - 1) shape =
      Some (spec_rectify_walk (stop_as_amended cmp) cmp a (end - 1) (orders_of shape))"
    using assms(1) refl assms(2) e(1,2)
    by (rule LeonardoHeapRectify_loop_walk [rotated]) (simp add: stop_as_amended_def)
  with e(3) show ?thesis by (simp add: LeonardoHeapRectify_def spec_rectify_def)
qed

theorem LeonardoHeapRectify_is_spec_rectify_witness:
  "orders_of \<lparr>trees = 11, smallestTreeSize = 1\<rparr> = [1, 2, 4] \<and>
   LeonardoHeapRectify (<) [1, 2, 3, 0, 4, 5, 6, 7, 9, 2, 3, 10, 5 :: nat] 13
       \<lparr>trees = 11, smallestTreeSize = 1\<rparr>
     = Some [1, 2, 3, 0, 4, 5, 5, 6, 7, 2, 3, 9, 10]"
proof -
  have o: "orders_of \<lparr>trees = 11, smallestTreeSize = 1\<rparr> = [1, 2, 4]"
    by code_simp
  have "shape_wf \<lparr>trees = 11, smallestTreeSize = 1\<rparr>"
    and "orders_of \<lparr>trees = 11, smallestTreeSize = 1\<rparr> \<noteq> []"
    and "forest_size (orders_of \<lparr>trees = 11, smallestTreeSize = 1\<rparr>) = 13"
    and "13 \<le> length [1, 2, 3, 0, 4, 5, 6, 7, 9, 2, 3, 10, 5 :: nat]"
    by code_simp+
  from LeonardoHeapRectify_is_spec_rectify [OF this, of "(<)"]
  have "LeonardoHeapRectify (<) [1, 2, 3, 0, 4, 5, 6, 7, 9, 2, 3, 10, 5 :: nat] 13
       \<lparr>trees = 11, smallestTreeSize = 1\<rparr>
     = Some (spec_rectify (stop_as_amended (<)) (<) [1, 2, 3, 0, 4, 5, 6, 7, 9, 2, 3, 10, 5] 13
         (orders_of \<lparr>trees = 11, smallestTreeSize = 1\<rparr>))" .
  also have "spec_rectify (stop_as_amended (<)) (<) [1, 2, 3, 0, 4, 5, 6, 7, 9, 2, 3, 10, 5 :: nat] 13
         (orders_of \<lparr>trees = 11, smallestTreeSize = 1\<rparr>) = [1, 2, 3, 0, 4, 5, 5, 6, 7, 2, 3, 9, 10]"
    by code_simp
  finally show ?thesis using o by simp
qed

section \<open>The driver: shape, frame and termination\<close>

lemma shape_inv_add:
  assumes "shape_inv shape e" and "e + 1 < leonardo 46"
  shows "shape_inv (LeonardoHeapAdd_shape shape) (e + 1)"
    and "orders_of (LeonardoHeapAdd_shape shape) = add_orders (orders_of shape)"
    and "\<forall>k \<in> set (add_orders (orders_of shape)). k < 46"
proof -
  from assms(1) have wf: "shape_wf shape" and fo: "forest_orders (orders_of shape)"
    and sz: "forest_size (orders_of shape) = e"
    by (simp_all add: shape_inv_def)
  from LeonardoHeapAdd_shape_orders [OF wf fo]
  have o: "orders_of (LeonardoHeapAdd_shape shape) = add_orders (orders_of shape)"
    and b: "bit (trees (LeonardoHeapAdd_shape shape)) 0"
    by simp_all
  show "orders_of (LeonardoHeapAdd_shape shape) = add_orders (orders_of shape)" by (rule o)
  have s: "forest_size (add_orders (orders_of shape)) = e + 1"
    using forest_size_add_orders [OF fo] sz by simp
  with assms(2) have "forest_size (add_orders (orders_of shape)) < leonardo 46" by simp
  then show lt: "\<forall>k \<in> set (add_orders (orders_of shape)). k < 46"
    by (auto intro: order_less_46)
  from o b lt s forest_orders_add_orders [OF fo]
  show "shape_inv (LeonardoHeapAdd_shape shape) (e + 1)"
    by (simp add: shape_inv_def shape_wf_def)
qed

lemma LeonardoHeapAdd_frame:
  assumes inv: "shape_inv shape e" and e: "e < heapEnd" and h: "heapEnd \<le> length a"
    and n: "e + 1 < leonardo 46"
  shows "\<exists>a'. LeonardoHeapAdd cmp a e heapEnd shape = Some (a', LeonardoHeapAdd_shape shape) \<and>
    length a' = length a \<and> mset a' = mset a \<and> (\<forall>i. e < i \<longrightarrow> a' ! i = a ! i)"
proof -
  define shape' where "shape' = LeonardoHeapAdd_shape shape"
  from inv have wf: "shape_wf shape" and fo: "forest_orders (orders_of shape)"
    by (simp_all add: shape_inv_def)
  note a = shape_inv_add [OF inv n]
  from a(1) have wf': "shape_wf shape'" and sz': "forest_size (orders_of shape') = e + 1"
    by (simp_all add: shape_inv_def shape'_def)
  then have ne: "orders_of shape' \<noteq> []" by auto
  then obtain k rest where o': "orders_of shape' = k # rest" by (cases "orders_of shape'") auto
  note c = shape_wf_cons [OF wf' o']
  from e h have len: "e + 1 \<le> length a" "e < length a" by simp_all
  from sz' o' have fit: "leonardo k \<le> e + 1" by simp
  from LeonardoHeapRectify_frame [OF wf' ne sz' len(1), of cmp]
  obtain a1 where a1: "LeonardoHeapRectify cmp a (e + 1) shape' = Some a1" "length a1 = length a"
    "mset a1 = mset a" "\<And>i. e < i \<Longrightarrow> a1 ! i = a ! i"
    by auto
  from RebalanceSingleHeap_frame [OF c(3) fit len(2), of cmp]
  obtain a2 where a2: "RebalanceSingleHeap cmp a e (smallestTreeSize shape') = Some a2"
    "length a2 = length a" "mset a2 = mset a" "\<And>i. e < i \<Longrightarrow> a2 ! i = a ! i"
    using c(2) by auto
  from LeonardoHeapAdd_spec [OF wf fo a(3) e, of cmp a] a1 a2
  show ?thesis
    by (auto simp: spec_heap_add_def shape'_def [symmetric] Let_def)
qed

lemma LeonardoHeapRemove_frame:
  assumes inv: "shape_inv shape e" and e: "0 < e" "e \<le> length a"
  shows "\<exists>a' shape'. LeonardoHeapRemove cmp a e shape = Some (a', shape') \<and>
    shape_inv shape' (e - 1) \<and> orders_of shape' = remove_orders (orders_of shape) \<and>
    length a' = length a \<and> mset a' = mset a \<and> (\<forall>i. e - 1 \<le> i \<longrightarrow> a' ! i = a ! i)"
proof -
  from inv have wf: "shape_wf shape" and fo: "forest_orders (orders_of shape)"
    and sz: "forest_size (orders_of shape) = e"
    by (simp_all add: shape_inv_def)
  from sz e obtain k rest where o: "orders_of shape = k # rest"
    by (cases "orders_of shape") auto
  note c = shape_wf_cons [OF wf o]
  have ro: "forest_orders (remove_orders (orders_of shape))"
    using fo by (rule forest_orders_remove_orders)
  have rs: "forest_size (remove_orders (orders_of shape)) = e - 1"
    using forest_size_remove_orders [of "orders_of shape"] o sz by simp
  show ?thesis
  proof (cases "k \<le> 1")
    case True
    from LeonardoHeapRemove_scan_orders [OF wf o] True o ro rs
    have "shape_inv (LeonardoHeapRemove_scan shape) (e - 1)"
      and "orders_of (LeonardoHeapRemove_scan shape) = remove_orders (orders_of shape)"
      by (simp_all add: shape_inv_def)
    with True c(2) show ?thesis by (simp add: LeonardoHeapRemove_def)
  next
    case False
    then have k2: "2 \<le> k" by simp
    define shape' where "shape' = shape\<lparr>trees := set_bit 1 (set_bit 0 (push_bit 2 (unset_bit 0 (trees shape)))),
                               smallestTreeSize := smallestTreeSize shape - 2\<rparr>"
    define allButLast where "allButLast = shape'\<lparr>smallestTreeSize := smallestTreeSize shape' + 1,
                                   trees := drop_bit 1 (trees shape')\<rparr>"
    note sp = LeonardoHeapRemove_split_orders [OF wf o k2, folded shape'_def, folded allButLast_def]
    have r: "leonardo k = leonardo (k - 1) + leonardo (k - 2) + 1"
      using k2 by (rule leonardo_rec)
    from sz o have ek: "e = leonardo k + forest_size rest" by simp
    define leftHeap where "leftHeap = e - 1 - 1 - leonardo (k - 2)"
    define rightHeap where "rightHeap = e - 1 - 1"
    have im: "iter_minus e 1 = Some (e - 1)" using e by (simp add: iter_minus_def)
    have fc: "FirstChild (e - 1) k = Some leftHeap"
      unfolding leftHeap_def using k2 c(3) ek r leonardo_pos [of "k - 1"]
      by (intro FirstChild_eq) linarith+
    have sc: "SecondChild (e - 1) = Some rightHeap"
      unfolding rightHeap_def using ek r leonardo_pos [of "k - 1"]
      by (intro SecondChild_eq) linarith
    have l1: "forest_size (orders_of allButLast) = leftHeap + 1" "leftHeap + 1 \<le> length a"
      "leftHeap + 1 \<le> rightHeap"
      using sp(3) ek r e leonardo_pos [of "k - 1"] leonardo_pos [of "k - 2"]
      unfolding leftHeap_def rightHeap_def by (simp_all; linarith)+
    have l2: "forest_size (orders_of shape') = rightHeap + 1" "rightHeap + 1 = e - 1"
      using sp(1) ek r e leonardo_pos [of "k - 1"] leonardo_pos [of "k - 2"]
      unfolding rightHeap_def by (simp_all; linarith)+
    from LeonardoHeapRectify_frame [OF sp(4) _ l1(1,2), of cmp] sp(3)
    obtain a1 where a1: "LeonardoHeapRectify cmp a (leftHeap + 1) allButLast = Some a1"
      "length a1 = length a" "mset a1 = mset a" "\<And>i. leftHeap + 1 \<le> i \<Longrightarrow> a1 ! i = a ! i"
      by auto
    have "rightHeap + 1 \<le> length a1" using l2(2) e a1(2) by simp
    from LeonardoHeapRectify_frame [OF sp(2) _ l2(1) this, of cmp] sp(1)
    obtain a2 where a2: "LeonardoHeapRectify cmp a1 (rightHeap + 1) shape' = Some a2"
      "length a2 = length a1" "mset a2 = mset a1" "\<And>i. rightHeap + 1 \<le> i \<Longrightarrow> a2 ! i = a1 ! i"
      by auto
    have run: "LeonardoHeapRemove cmp a e shape = Some (a2, shape')"
      using False c(2) im fc sc a1(1) a2(1) unfolding allButLast_def shape'_def
      by (simp add: LeonardoHeapRemove_def Let_def)
    have "a2 ! i = a ! i" if "e - 1 \<le> i" for i
      using that a2(4) [of i] a1(4) [of i] l1(3) l2(2) by simp
    moreover have "shape_inv shape' (e - 1)"
      using sp(1,2) ro rs o k2 by (simp add: shape_inv_def)
    moreover have "orders_of shape' = remove_orders (orders_of shape)"
      using sp(1) o k2 by simp
    ultimately show ?thesis using run a1(2,3) a2(2,3) by simp
  qed
qed

lemma Smoothsort_build_done: "Smoothsort_build cmp heapEnd a stop stop shape = Some (a, shape)"
  by (simp add: Smoothsort_build.simps [of cmp heapEnd a stop stop shape])

lemma Smoothsort_build_step:
  "i < stop \<Longrightarrow> Smoothsort_build cmp heapEnd a i stop shape =
    LeonardoHeapAdd cmp a i heapEnd shape \<bind>
      (\<lambda>(a', shape'). Smoothsort_build cmp heapEnd a' (i + 1) stop shape')"
  by (simp add: Smoothsort_build.simps [of cmp heapEnd a i stop shape])

lemma Smoothsort_dequeue_done: "Smoothsort_dequeue cmp a stop stop shape = Some (a, shape)"
  by (simp add: Smoothsort_dequeue.simps [of cmp a stop stop shape])

lemma Smoothsort_dequeue_step:
  "stop < i \<Longrightarrow> Smoothsort_dequeue cmp a i stop shape =
    LeonardoHeapRemove cmp a i shape \<bind>
      (\<lambda>(a', shape'). Smoothsort_dequeue cmp a' (i - 1) stop shape')"
  by (simp add: Smoothsort_dequeue.simps [of cmp a i stop shape])

lemma Smoothsort_build_frame:
  assumes "shape_inv shape i" and "i \<le> stop" and "stop \<le> heapEnd" and "heapEnd \<le> length a"
    and "stop < leonardo 46"
  shows "\<exists>a' shape'. Smoothsort_build cmp heapEnd a i stop shape = Some (a', shape') \<and>
    shape_inv shape' stop \<and> orders_of shape' = (add_orders ^^ (stop - i)) (orders_of shape) \<and>
    length a' = length a \<and> mset a' = mset a"
  using assms
proof (induction "stop - i" arbitrary: a i shape)
  case 0
  then have "i = stop" by simp
  with 0 show ?case by (simp add: Smoothsort_build_done)
next
  case (Suc d)
  then have lt: "i < heapEnd" "i < stop" and n: "i + 1 < leonardo 46" by simp_all
  from LeonardoHeapAdd_frame [OF Suc.prems(1) lt(1) Suc.prems(4) n, of cmp]
  obtain a1 where a1: "LeonardoHeapAdd cmp a i heapEnd shape = Some (a1, LeonardoHeapAdd_shape shape)"
    "length a1 = length a" "mset a1 = mset a"
    by blast
  note inv1 = shape_inv_add [OF Suc.prems(1) n]
  have d: "d = stop - (i + 1)" using Suc.hyps(2) by simp
  have e: "stop - i = Suc (stop - (i + 1))" using lt(2) by simp
  have "\<exists>a' shape'. Smoothsort_build cmp heapEnd a1 (i + 1) stop (LeonardoHeapAdd_shape shape) =
      Some (a', shape') \<and> shape_inv shape' stop \<and>
      orders_of shape' = (add_orders ^^ (stop - (i + 1))) (orders_of (LeonardoHeapAdd_shape shape)) \<and>
      length a' = length a1 \<and> mset a' = mset a1"
    using d Suc.prems(2,3,4,5) a1(2) lt(2) by (intro Suc.hyps(1) inv1(1)) simp_all
  moreover have "(add_orders ^^ (stop - (i + 1))) (orders_of (LeonardoHeapAdd_shape shape)) =
      (add_orders ^^ (stop - i)) (orders_of shape)"
    unfolding e inv1(2) by (simp only: funpow.simps o_apply funpow_swap1)
  ultimately show ?case using a1 lt
    by (simp add: Smoothsort_build_step)
qed

lemma Smoothsort_dequeue_frame:
  assumes "shape_inv shape i" and "stop \<le> i" and "i \<le> length a"
  shows "\<exists>a' shape'. Smoothsort_dequeue cmp a i stop shape = Some (a', shape') \<and>
    shape_inv shape' stop \<and> length a' = length a \<and> mset a' = mset a"
  using assms
proof (induction "i - stop" arbitrary: a i shape)
  case 0
  then have "i = stop" by simp
  with 0 show ?case by (simp add: Smoothsort_dequeue_done)
next
  case (Suc d)
  then have lt: "0 < i" "stop < i" by simp_all
  from LeonardoHeapRemove_frame [OF Suc.prems(1) lt(1) Suc.prems(3), of cmp]
  obtain a1 shape1 where a1: "LeonardoHeapRemove cmp a i shape = Some (a1, shape1)"
    "shape_inv shape1 (i - 1)" "length a1 = length a" "mset a1 = mset a"
    by blast
  have "\<exists>a' shape'. Smoothsort_dequeue cmp a1 (i - 1) stop shape1 =
      Some (a', shape') \<and> shape_inv shape' stop \<and> length a' = length a1 \<and> mset a' = mset a1"
    using Suc.hyps(2) Suc.prems(2,3) a1(3) by (intro Suc.hyps(1) a1(2)) simp_all
  with a1 lt show ?case
    by (simp add: Smoothsort_dequeue_step)
qed

lemma shape_inv_empty: "shape_inv \<lparr>trees = 0, smallestTreeSize = 0\<rparr> 0"
  by (simp add: shape_inv_def shape_wf_def orders_of_def)

lemma Smoothsort_frame:
  assumes "length a < leonardo 46"
  shows "\<exists>a'. Smoothsort cmp a = Some a' \<and> length a' = length a \<and> mset a' = mset a"
proof (cases "length a = 0 \<or> length a = 1")
  case True
  then show ?thesis by (simp add: Smoothsort_def)
next
  case False
  from Smoothsort_build_frame [OF shape_inv_empty _ _ _ assms, of "length a" a cmp]
  obtain a1 shape1 where b: "Smoothsort_build cmp (length a) a 0 (length a)
      \<lparr>trees = 0, smallestTreeSize = 0\<rparr> = Some (a1, shape1)"
    "shape_inv shape1 (length a)" "length a1 = length a" "mset a1 = mset a"
    by auto
  from Smoothsort_dequeue_frame [OF b(2), of 0 a1 cmp] b(3)
  obtain a2 shape2 where d: "Smoothsort_dequeue cmp a1 (length a) 0 shape1 = Some (a2, shape2)"
    "length a2 = length a1" "mset a2 = mset a1"
    by auto
  with b False show ?thesis by (simp add: Smoothsort_def)
qed

subsection \<open>The first length the table does not cover\<close>

text \<open>
  Inserting \<open>L(k)\<close> elements to the right of a forest whose trees all have orders above
  \<open>k\<close> builds one tree of order \<open>k\<close> there; so after \<open>L(45) + L(44) = L(46) - 1\<close> inserts
  the forest consists of a tree of order 45 and a tree of order 44, and the next insert
  merges them into a tree of order 46, for which the table has no entry.
\<close>

lemma add_orders_new_tree:
  "sorted_wrt (\<lambda>x y. x + 2 \<le> y) ks \<Longrightarrow> \<forall>x \<in> set ks. 1 < x \<Longrightarrow> add_orders ks = 1 # ks"
  by (induction ks rule: add_orders.induct) auto

lemma add_orders_second_tree:
  "\<forall>x \<in> set ks. 2 < x \<Longrightarrow> add_orders (1 # ks) = 0 # 1 # ks"
  by (cases ks) auto

lemma add_orders_merge: "add_orders (k # Suc k # ks) = Suc (Suc k) # ks"
  by simp

lemma add_orders_tree:
  "1 \<le> k \<Longrightarrow> sorted_wrt (\<lambda>x y. x + 2 \<le> y) ks \<Longrightarrow> \<forall>x \<in> set ks. k < x \<Longrightarrow>
   (add_orders ^^ leonardo k) ks = k # ks"
proof (induction k arbitrary: ks rule: leonardo.induct)
  case 1
  then show ?case by simp
next
  case 2
  then show ?case by (simp add: add_orders_new_tree)
next
  case (3 k)
  note gap = "3.prems"(2) and gt = "3.prems"(3)
  show ?case
  proof (cases "k = 0")
    case True
    from gt True have g1: "\<forall>x \<in> set ks. 1 < x" and g2: "\<forall>x \<in> set ks. 2 < x" by auto
    have "leonardo (Suc (Suc 0)) = Suc (Suc (Suc 0))" by simp
    then have "(add_orders ^^ leonardo (Suc (Suc 0))) ks = add_orders (add_orders (add_orders ks))"
      by (simp only: funpow.simps o_apply id_apply)
    also have "\<dots> = Suc (Suc 0) # ks"
      using add_orders_new_tree [OF gap g1] add_orders_second_tree [OF g2] by simp
    finally show ?thesis using True by simp
  next
    case False
    then have k1: "1 \<le> k" by simp
    have a: "(add_orders ^^ leonardo (Suc k)) ks = Suc k # ks"
      using gap gt by (intro "3.IH"(1)) auto
    have "sorted_wrt (\<lambda>x y. x + 2 \<le> y) (Suc k # ks)" "\<forall>x \<in> set (Suc k # ks). k < x"
      using gap gt by auto
    with k1 have b: "(add_orders ^^ leonardo k) (Suc k # ks) = k # Suc k # ks"
      by (intro "3.IH"(2))
    have "leonardo (Suc (Suc k)) = Suc (leonardo k + leonardo (Suc k))" by simp
    then have "(add_orders ^^ leonardo (Suc (Suc k))) ks =
        add_orders ((add_orders ^^ leonardo k) ((add_orders ^^ leonardo (Suc k)) ks))"
      by (simp only: funpow.simps funpow_add o_apply)
    with a b show ?thesis by (simp only: add_orders_merge)
  qed
qed

lemma add_orders_before_46: "(add_orders ^^ (leonardo 46 - 1)) [] = [44, 45]"
proof -
  have "(add_orders ^^ leonardo 45) [] = [45]"
    by (rule add_orders_tree) simp_all
  moreover have "(add_orders ^^ leonardo 44) [45] = [44, 45]"
    by (rule add_orders_tree) simp_all
  moreover have "leonardo 46 - 1 = leonardo 44 + leonardo 45"
    using leonardo_rec [of 46] by simp
  ultimately show ?thesis by (simp only: funpow_add o_apply)
qed

lemma LeonardoHeapAdd_order_46:
  assumes inv: "shape_inv shape e" and o: "orders_of shape = [44, 45]"
  shows "LeonardoHeapAdd cmp a e (e + 1) shape = None"
proof -
  define shape' where "shape' = LeonardoHeapAdd_shape shape"
  from inv have wf: "shape_wf shape" and fo: "forest_orders (orders_of shape)"
    by (simp_all add: shape_inv_def)
  from LeonardoHeapAdd_shape_orders [OF wf fo] o
  have o': "orders_of shape' = [46]" and b0: "bit (trees shape') 0"
    by (simp_all add: shape'_def)
  from orders_of_cons [OF b0] o' have s: "smallestTreeSize shape' = 46" by simp
  have "leonardo_at 45 = Some (leonardo 45)" by (rule leonardo_at_leonardo) simp
  with s have last: "LeonardoHeapAdd_isLast e (e + 1) shape' = Some True"
    by (simp add: LeonardoHeapAdd_isLast_def size_t_sub_def)
  have "leonardo_at 46 = None" by (rule leonardo_at_None) simp
  with s have "LeonardoHeapRectify_loop cmp a e shape' = None"
    by (simp add: LeonardoHeapRectify_loop.simps [of cmp a e shape'])
  then have "LeonardoHeapRectify cmp a (e + 1) shape' = None"
    by (simp add: LeonardoHeapRectify_def iter_minus_def)
  with last show ?thesis
    by (simp add: LeonardoHeapAdd_def shape'_def [symmetric] Let_def)
qed

lemma Smoothsort_build_order_46:
  assumes n: "length a = leonardo 46"
  shows "Smoothsort_build cmp (length a) a 0 (length a) \<lparr>trees = 0, smallestTreeSize = 0\<rparr> = None"
proof -
  define m where "m = leonardo 46 - 1"
  have m: "m < leonardo 46" "m + 1 = length a"
    using n leonardo_pos [of 46] by (simp_all add: m_def)
  have run: "Smoothsort_build cmp (length a) a' i (length a) shape = None"
    if "shape_inv shape i" "i \<le> m" "(add_orders ^^ (m - i)) (orders_of shape) = [44, 45]"
      "length a' = length a" for a' i shape
    using that
  proof (induction "m - i" arbitrary: a' i shape)
    case 0
    then have i: "i = m" by simp
    with 0 have "orders_of shape = [44, 45]" by simp
    from LeonardoHeapAdd_order_46 [OF "0.prems"(1) this, of cmp a'] i m
    have "LeonardoHeapAdd cmp a' i (length a) shape = None" by simp
    moreover have "i < length a" using i m by simp
    ultimately show ?case by (simp add: Smoothsort_build_step)
  next
    case (Suc d)
    then have lt: "i < length a" "i < m" and b: "i + 1 < leonardo 46"
      using m by simp_all
    from Suc.prems(4) have h: "length a \<le> length a'" by simp
    from LeonardoHeapAdd_frame [OF Suc.prems(1) lt(1) h b, of cmp]
    obtain a1 where a1: "LeonardoHeapAdd cmp a' i (length a) shape =
        Some (a1, LeonardoHeapAdd_shape shape)" "length a1 = length a'"
      by blast
    note inv1 = shape_inv_add [OF Suc.prems(1) b]
    have d: "d = m - (i + 1)" using Suc.hyps(2) by simp
    have e: "m - i = Suc (m - (i + 1))" using lt(2) by simp
    have "(add_orders ^^ (m - (i + 1))) (orders_of (LeonardoHeapAdd_shape shape)) =
        (add_orders ^^ (m - i)) (orders_of shape)"
      unfolding e inv1(2) by (simp only: funpow.simps o_apply funpow_swap1)
    with Suc.prems(3) have
      "Smoothsort_build cmp (length a) a1 (i + 1) (length a) (LeonardoHeapAdd_shape shape) = None"
      using d lt(2) a1(2) Suc.prems(4) by (intro Suc.hyps(1) inv1(1)) simp_all
    with a1(1) lt(1) show ?case by (simp add: Smoothsort_build_step)
  qed
  have "(add_orders ^^ (m - 0)) (orders_of \<lparr>trees = 0, smallestTreeSize = 0\<rparr>) = [44, 45]"
    using add_orders_before_46 by (simp add: m_def orders_of_def)
  with shape_inv_empty show ?thesis by (intro run) simp_all
qed

lemma Smoothsort_order_46: "length a = leonardo 46 \<Longrightarrow> Smoothsort cmp a = None"
  using Smoothsort_build_order_46 [of a cmp] by (simp add: Smoothsort_def leonardo_46)

text \<open>
  Claim C8, as stated, has \<open>Smoothsort\<close> return for every finite sequence. On a sequence of
  \<open>L(46) = 5942430145\<close> elements (here all 0) it does not: the last insert completes a tree
  of order 46, takes it as final, and \<open>LeonardoHeapRectify\<close> reads \<open>kLeonardoNumbers[46]\<close>,
  one past the end of the table.
\<close>

theorem Smoothsort_table_counterexample:
  "Smoothsort (<) (replicate 5942430145 (0 :: nat)) = None"
  by (rule Smoothsort_order_46) (simp only: length_replicate leonardo_46)

text \<open>
  Claim C8, amended: \<open>Smoothsort\<close> returns a result for every sequence of fewer than
  \<open>L(46) = 5942430145\<close> elements, so for every length a 32-bit \<open>size_t\<close> can hold, whatever
  the comparator does: no loop of \<open>RebalanceSingleHeap\<close>, \<open>LeonardoHeapRectify\<close> or
  \<open>LeonardoHeapRemove\<close> runs forever and no read leaves the table or the sequence (either
  would make the result \<open>None\<close>).
\<close>

theorem Smoothsort_terminates:
  "length a < 5942430145 \<Longrightarrow> \<exists>a'. Smoothsort cmp a = Some a'"
  using Smoothsort_frame [of a cmp] by (simp only: leonardo_46) blast

theorem Smoothsort_terminates_witness:
  "\<exists>a'. Smoothsort (\<lambda>x y. True) [5, 3, 4, 1, 2 :: nat] = Some a'"
  using Smoothsort_terminates [of "[5, 3, 4, 1, 2 :: nat]" "\<lambda>x y. True"] by simp

section \<open>The forest invariants\<close>

lemma swo_trans: "strict_weak_ordering cmp \<Longrightarrow> cmp x y \<Longrightarrow> cmp y z \<Longrightarrow> cmp x z"
  unfolding strict_weak_ordering_def by blast

lemma roots_sorted_tl: "roots_sorted cmp a e (k # rest) \<Longrightarrow> roots_sorted cmp a (e - leonardo k) rest"
  by (cases rest) simp_all

lemma forest_heaps_frame:
  "forest_size ks \<le> e \<Longrightarrow> (\<And>i. i < e \<Longrightarrow> a' ! i = a ! i) \<Longrightarrow>
   forest_heaps cmp a' e ks = forest_heaps cmp a e ks"
proof (induction ks arbitrary: e)
  case (Cons k ks)
  from Cons.prems(1) have le: "leonardo k \<le> e" "forest_size ks \<le> e - leonardo k" by simp_all
  have "is_heap cmp a' (e - 1) k = is_heap cmp a (e - 1) k"
    using le leonardo_pos [of k] by (intro is_heap_frame Cons.prems(2)) linarith+
  moreover have "forest_heaps cmp a' (e - leonardo k) ks = forest_heaps cmp a (e - leonardo k) ks"
    using le by (intro Cons.IH Cons.prems(2)) simp_all
  ultimately show ?case by simp
qed simp

lemma roots_sorted_frame:
  "forest_size ks \<le> e \<Longrightarrow> (\<And>i. i < e \<Longrightarrow> a' ! i = a ! i) \<Longrightarrow>
   roots_sorted cmp a' e ks = roots_sorted cmp a e ks"
proof (induction cmp a e ks rule: roots_sorted.induct)
  case (1 cmp a e k k' ks)
  from "1.prems"(1) have le: "leonardo k + leonardo k' \<le> e" "forest_size (k' # ks) \<le> e - leonardo k"
    by simp_all
  have "a' ! (e - 1) = a ! (e - 1)" "a' ! (e - 1 - leonardo k) = a ! (e - 1 - leonardo k)"
    using le leonardo_pos [of k] by (intro "1.prems"(2); linarith)+
  moreover have "roots_sorted cmp a' (e - leonardo k) (k' # ks) =
      roots_sorted cmp a (e - leonardo k) (k' # ks)"
    using le(2) by (intro "1.IH" "1.prems"(2)) simp_all
  ultimately show ?case by simp
qed simp_all

lemma RebalanceSingleHeap_top:
  assumes swo: "strict_weak_ordering cmp" and k: "k < 46" and fit: "leonardo k \<le> itr + 1"
    and len: "itr < length a" and ch: "children_heaps cmp a itr k"
    and reb: "RebalanceSingleHeap cmp a itr k = Some b"
  shows "is_heap cmp b itr k"
    and "length b = length a"
    and "\<And>i. i + leonardo k \<le> itr \<or> itr < i \<Longrightarrow> b ! i = a ! i"
    and "\<exists>j. itr + 1 \<le> j + leonardo k \<and> j \<le> itr \<and> b ! itr = a ! j"
    and "\<And>t. itr + 1 \<le> t + leonardo k \<Longrightarrow> t \<le> itr \<Longrightarrow> \<not> cmp (b ! itr) (a ! t)"
proof -
  show h: "is_heap cmp b itr k"
    using swo k fit len ch reb by (rule RebalanceSingleHeap_heap)
  from RebalanceSingleHeap_frame [OF k fit len, of cmp] reb
  have fr: "length b = length a" "mset b = mset a"
    "\<And>i. i + leonardo k \<le> itr \<or> itr < i \<Longrightarrow> b ! i = a ! i"
    by auto
  show "length b = length a" by (rule fr(1))
  show "b ! i = a ! i" if "i + leonardo k \<le> itr \<or> itr < i" for i
    using that by (rule fr(3))
  have lohi: "itr + 1 - leonardo k \<le> itr + 1" "itr + 1 \<le> length a"
    using len by simp_all
  have out: "i + leonardo k \<le> itr \<or> itr < i" if "i < itr + 1 - leonardo k \<or> itr + 1 \<le> i" for i
    using that by linarith
  have "\<exists>j. itr + 1 - leonardo k \<le> j \<and> j < itr + 1 \<and> b ! itr = a ! j"
    using fr(1,2) lohi
  proof (rule frame_elem)
    show "b ! i = a ! i" if "i < length a" "i < itr + 1 - leonardo k \<or> itr + 1 \<le> i" for i
      using out [OF that(2)] by (rule fr(3))
    show "itr + 1 - leonardo k \<le> itr" using leonardo_pos [of k] by linarith
    show "itr < itr + 1" by simp
  qed
  then obtain j where "itr + 1 - leonardo k \<le> j" "j < itr + 1" "b ! itr = a ! j" by blast
  then have "itr + 1 \<le> j + leonardo k \<and> j \<le> itr \<and> b ! itr = a ! j" by linarith
  then show "\<exists>j. itr + 1 \<le> j + leonardo k \<and> j \<le> itr \<and> b ! itr = a ! j" ..
  show "\<not> cmp (b ! itr) (a ! t)" if t: "itr + 1 \<le> t + leonardo k" "t \<le> itr" for t
  proof -
    have "\<exists>j. itr + 1 - leonardo k \<le> j \<and> j < itr + 1 \<and> a ! t = b ! j"
      using fr(1) [symmetric] fr(2) [symmetric] lohi(1)
    proof (rule frame_elem)
      show "itr + 1 \<le> length b" using lohi(2) fr(1) by simp
      show "a ! i = b ! i" if "i < length b" "i < itr + 1 - leonardo k \<or> itr + 1 \<le> i" for i
        using fr(3) [OF out [OF that(2)]] by simp
      show "itr + 1 - leonardo k \<le> t" "t < itr + 1" using t by linarith+
    qed
    then obtain j where "itr + 1 - leonardo k \<le> j" "j < itr + 1" and e: "a ! t = b ! j" by blast
    then have j: "itr + 1 \<le> j + leonardo k" "j \<le> itr" by linarith+
    from swo h fit j have "\<not> cmp (b ! itr) (b ! j)" by (rule is_heap_root_max)
    with e show ?thesis by simp
  qed
qed

lemma toCompare_props:
  assumes swo: "strict_weak_ordering cmp" and fit: "leonardo k \<le> itr + 1"
    and lc: "lc = (if cmp (a ! (itr - 1 - leonardo (k - 2))) (a ! (itr - 1)) then itr - 1
                   else itr - 1 - leonardo (k - 2))"
    and tc: "tc = (if 1 < k \<and> cmp (a ! itr) (a ! lc) then lc else itr)"
  shows "itr + 1 \<le> tc + leonardo k" and "tc \<le> itr"
    and "\<not> cmp (a ! tc) (a ! itr)"
    and "2 \<le> k \<Longrightarrow> \<not> cmp (a ! tc) (a ! (itr - 1 - leonardo (k - 2)))"
    and "2 \<le> k \<Longrightarrow> \<not> cmp (a ! tc) (a ! (itr - 1))"
proof -
  have lcr: "itr + 1 \<le> lc + leonardo k \<and> lc \<le> itr" if "1 < k"
  proof -
    from that have r: "leonardo k = leonardo (k - 1) + leonardo (k - 2) + 1"
      by (intro leonardo_rec) simp
    with fit leonardo_pos [of "k - 1"] leonardo_pos [of "k - 2"] show ?thesis
      unfolding lc by (cases "cmp (a ! (itr - 1 - leonardo (k - 2))) (a ! (itr - 1))"; simp; linarith)
  qed
  have p: "1 \<le> leonardo k" using leonardo_pos [of k] by linarith
  show "itr + 1 \<le> tc + leonardo k"
  proof (cases "1 < k \<and> cmp (a ! itr) (a ! lc)")
    case True
    with lcr show ?thesis by (simp add: tc)
  next
    case False
    with p show ?thesis by (auto simp: tc)
  qed
  show "tc \<le> itr"
  proof (cases "1 < k \<and> cmp (a ! itr) (a ! lc)")
    case True
    with lcr show ?thesis by (simp add: tc)
  next
    case False
    then show ?thesis by (auto simp: tc)
  qed
  show "\<not> cmp (a ! tc) (a ! itr)"
    using swo unfolding tc by (auto dest: swo_asym swo_irrefl)
  have lo: "\<not> cmp (a ! lc) (a ! (itr - 1 - leonardo (k - 2)))" "\<not> cmp (a ! lc) (a ! (itr - 1))"
    using swo unfolding lc by (auto dest: swo_asym swo_irrefl)
  show "\<not> cmp (a ! tc) (a ! (itr - 1 - leonardo (k - 2)))" if "2 \<le> k"
  proof (cases "cmp (a ! itr) (a ! lc)")
    case True
    with that lo show ?thesis by (simp add: tc)
  next
    case False
    from swo_le_trans [OF swo False lo(1)] False show ?thesis by (simp add: tc)
  qed
  show "\<not> cmp (a ! tc) (a ! (itr - 1))" if "2 \<le> k"
  proof (cases "cmp (a ! itr) (a ! lc)")
    case True
    with that lo show ?thesis by (simp add: tc)
  next
    case False
    from swo_le_trans [OF swo False lo(2)] False show ?thesis by (simp add: tc)
  qed
qed

lemma LeonardoHeapRectify_loop_value:
  assumes swo: "strict_weak_ordering cmp"
  shows "shape_wf shape \<Longrightarrow> orders_of shape = k # rest \<Longrightarrow> forest_size (k # rest) = itr + 1 \<Longrightarrow>
    itr < length a \<Longrightarrow> children_heaps cmp a itr k \<Longrightarrow>
    forest_heaps cmp a (itr + 1 - leonardo k) rest \<Longrightarrow>
    LeonardoHeapRectify_loop cmp a itr shape = Some a' \<Longrightarrow>
    forest_heaps cmp a' (itr + 1) (k # rest) \<and>
    ((\<exists>j. itr + 1 \<le> j + leonardo k \<and> j \<le> itr \<and> a' ! itr = a ! j) \<or>
       (rest \<noteq> [] \<and> a' ! itr = a ! (itr - leonardo k))) \<and>
    (roots_sorted cmp a (itr + 1 - leonardo k) rest \<longrightarrow> roots_sorted cmp a' (itr + 1) (k # rest)) \<and>
    (\<forall>pre suf. rest = pre @ suf \<and> roots_sorted cmp a (itr + 1 - leonardo k - forest_size pre) suf \<longrightarrow>
       roots_sorted cmp a' (itr + 1 - leonardo k - forest_size pre) suf)"
proof (induction rest arbitrary: a itr shape k a')
  case Nil
  note wf = Nil.prems(1) and o = Nil.prems(2) and sz = Nil.prems(3) and len = Nil.prems(4)
    and ch = Nil.prems(5) and run = Nil.prems(7)
  note c = shape_wf_cons [OF wf o]
  have fit: "leonardo k \<le> itr + 1" using sz by simp
  from LeonardoHeapRectify_loop_step [OF wf o sz len, of cmp] run
  have reb: "RebalanceSingleHeap cmp a itr k = Some a'" by simp
  note top = RebalanceSingleHeap_top [OF swo c(3) fit len ch reb]
  from top(1,4) show ?case by simp
next
  case (Cons k' rest')
  note wf = Cons.prems(1) and o = Cons.prems(2) and sz = Cons.prems(3) and len = Cons.prems(4)
    and ch = Cons.prems(5) and fh = Cons.prems(6) and run = Cons.prems(7)
  note c = shape_wf_cons [OF wf o]
  define rest where "rest = k' # rest'"
  have fit: "leonardo k \<le> itr + 1" using sz by simp
  define lc where "lc = (if cmp (a ! (itr - 1 - leonardo (k - 2))) (a ! (itr - 1)) then itr - 1
                   else itr - 1 - leonardo (k - 2))"
  define tc where "tc = (if 1 < k \<and> cmp (a ! itr) (a ! lc) then lc else itr)"
  define prior where "prior = itr - leonardo k"
  note tcp = toCompare_props [OF swo fit lc_def tc_def]
  have "0 < forest_size rest" by (simp add: rest_def)
  with sz leonardo_pos [of k] have p: "forest_size rest = prior + 1" "prior < itr"
    "prior + leonardo k = itr" "itr + 1 - leonardo k = prior + 1"
    unfolding forest_size_simps prior_def rest_def by linarith+
  have p': "leonardo k' \<le> prior + 1" "forest_size rest' = prior + 1 - leonardo k'"
    using p(1) by (simp_all add: rest_def)
  from LeonardoHeapRectify_loop_step [OF wf o sz len, of cmp]
  have step: "LeonardoHeapRectify_loop cmp a itr shape =
      (if \<not> cmp (a ! tc) (a ! prior) then RebalanceSingleHeap cmp a itr k
       else shift_to_previous_tree shape \<bind>
         (\<lambda>shape'. LeonardoHeapRectify_loop cmp (iter_swap a itr prior) prior shape'))"
    by (simp add: Let_def lc_def tc_def prior_def)
  have fhp: "forest_heaps cmp a (prior + 1) rest"
    using fh unfolding p(4) rest_def .
  then have hk': "is_heap cmp a prior k'" and fh': "forest_heaps cmp a (prior + 1 - leonardo k') rest'"
    by (simp_all add: rest_def)
  show ?case
  proof (cases "cmp (a ! tc) (a ! prior)")
    case False
    with step run have reb: "RebalanceSingleHeap cmp a itr k = Some a'" by simp
    note top = RebalanceSingleHeap_top [OF swo c(3) fit len ch reb]
    have fr: "a' ! i = a ! i" if "i < prior + 1" for i
      using that p(3) by (intro top(3)) linarith
    have "forest_heaps cmp a' (prior + 1) rest = forest_heaps cmp a (prior + 1) rest"
      using p(1) fr by (intro forest_heaps_frame) simp_all
    with fhp top(1) have H: "forest_heaps cmp a' (itr + 1) (k # rest)"
      unfolding forest_heaps.simps p(4) by simp
    have S: "roots_sorted cmp a' (itr + 1) (k # rest)" if rs: "roots_sorted cmp a (prior + 1) rest"
    proof -
      have "\<not> cmp (a' ! itr) (a ! tc)" using tcp(1,2) by (rule top(5))
      from swo_le_trans [OF swo this False] have "\<not> cmp (a' ! itr) (a ! prior)" .
      moreover have "a' ! prior = a ! prior" by (rule fr) simp
      moreover have "roots_sorted cmp a' (prior + 1) rest = roots_sorted cmp a (prior + 1) rest"
        using p(1) fr by (intro roots_sorted_frame) simp_all
      ultimately show ?thesis using rs p(4) by (simp add: rest_def prior_def)
    qed
    have P: "roots_sorted cmp a' (prior + 1 - forest_size pre) suf"
      if "rest = pre @ suf" "roots_sorted cmp a (prior + 1 - forest_size pre) suf" for pre suf
    proof -
      from that(1) p(1) have "forest_size suf \<le> prior + 1 - forest_size pre" by simp
      then have "roots_sorted cmp a' (prior + 1 - forest_size pre) suf =
          roots_sorted cmp a (prior + 1 - forest_size pre) suf"
        using fr by (intro roots_sorted_frame) simp_all
      with that(2) show ?thesis by simp
    qed
    from H top(4) S P show ?thesis unfolding rest_def [symmetric] p(4) by blast
  next
    case True
    define a1 where "a1 = iter_swap a itr prior"
    from shift_to_previous_tree_orders [OF wf o]
    obtain shape' where sh: "shift_to_previous_tree shape = Some shape'" "shape_wf shape'"
      "orders_of shape' = k' # rest'"
      by auto
    from step True run sh(1) have run1: "LeonardoHeapRectify_loop cmp a1 prior shape' = Some a'"
      by (simp add: a1_def)
    have l1: "prior < length a1" "length a1 = length a" using p(2) len by (simp_all add: a1_def)
    have a1_nth: "a1 ! n = (if n = prior then a ! itr else if n = itr then a ! prior else a ! n)" for n
      using p(2) len by (simp add: a1_def nth_iter_swap)
    have sz1: "forest_size (k' # rest') = prior + 1" using p(1) by (simp add: rest_def)
    have ch1: "children_heaps cmp a1 prior k'"
    proof -
      have "children_heaps cmp a1 prior k' = children_heaps cmp a prior k'"
        using p'(1) p(2) by (intro children_heaps_frame) (auto simp: a1_nth)
      with hk' show ?thesis by (simp add: is_heap_children)
    qed
    have fr1: "a1 ! i = a ! i" if "i < prior" for i
      using that p(2) by (simp add: a1_nth)
    have fh1: "forest_heaps cmp a1 (prior + 1 - leonardo k') rest'"
    proof -
      have "forest_heaps cmp a1 (prior + 1 - leonardo k') rest' =
          forest_heaps cmp a (prior + 1 - leonardo k') rest'"
        using p'(2) leonardo_pos [of k'] by (intro forest_heaps_frame fr1) linarith+
      with fh' show ?thesis by simp
    qed
    note IH = Cons.IH [OF sh(2,3) sz1 l1(1) ch1 fh1 run1]
    from IH have H': "forest_heaps cmp a' (prior + 1) (k' # rest')" by blast
    from IH have B': "(\<exists>j. prior + 1 \<le> j + leonardo k' \<and> j \<le> prior \<and> a' ! prior = a1 ! j) \<or>
       (rest' \<noteq> [] \<and> a' ! prior = a1 ! (prior - leonardo k'))" by blast
    from IH have S': "roots_sorted cmp a1 (prior + 1 - leonardo k') rest' \<Longrightarrow>
       roots_sorted cmp a' (prior + 1) (k' # rest')" by blast
    from IH have P': "\<And>pre suf. rest' = pre @ suf \<Longrightarrow>
       roots_sorted cmp a1 (prior + 1 - leonardo k' - forest_size pre) suf \<Longrightarrow>
       roots_sorted cmp a' (prior + 1 - leonardo k' - forest_size pre) suf" by blast
    from LeonardoHeapRectify_loop_frame [OF sh(2,3) _ sz1 l1(1), of cmp] run1
    have fr': "\<And>i. prior < i \<Longrightarrow> a' ! i = a1 ! i" by auto
    have root: "a' ! itr = a ! prior" using fr' [of itr] p(2) by (simp add: a1_nth)
    have inner: "a' ! i = a ! i" if "prior < i" "i < itr" for i
      using fr' [of i] that by (simp add: a1_nth)
    have hk: "is_heap cmp a' itr k"
    proof (cases "2 \<le> k")
      case False
      then show ?thesis by (intro is_heap_leaf) simp
    next
      case k2: True
      then have r: "leonardo k = leonardo (k - 1) + leonardo (k - 2) + 1" by (rule leonardo_rec)
      note q = leonardo_pos [of "k - 1"] leonardo_pos [of "k - 2"]
      have "children_heaps cmp a' itr k = children_heaps cmp a itr k"
        using fit p(3) by (intro children_heaps_frame inner) linarith+
      with ch k2 have chh: "is_heap cmp a' (itr - 1 - leonardo (k - 2)) (k - 1)"
        "is_heap cmp a' (itr - 1) (k - 2)"
        by (simp_all add: children_heaps_unfold)
      have e1: "a' ! (itr - 1 - leonardo (k - 2)) = a ! (itr - 1 - leonardo (k - 2))"
        using p(3) r q by (intro inner) linarith+
      have e2: "a' ! (itr - 1) = a ! (itr - 1)"
        using p(3) r q by (intro inner) linarith+
      have n1: "\<not> cmp (a ! prior) (a ! (itr - 1 - leonardo (k - 2)))"
        using swo_trans [OF swo True] tcp(4) [OF k2] by blast
      have n2: "\<not> cmp (a ! prior) (a ! (itr - 1))"
        using swo_trans [OF swo True] tcp(5) [OF k2] by blast
      from k2 chh e1 e2 n1 n2 root show ?thesis by (simp add: is_heap_unfold)
    qed
    from hk H' have H: "forest_heaps cmp a' (itr + 1) (k # rest)"
      unfolding forest_heaps.simps p(4) rest_def by simp
    have tl1: "roots_sorted cmp a1 (prior + 1 - leonardo k') rest'"
      if rs: "roots_sorted cmp a (prior + 1) rest"
    proof -
      from rs have "roots_sorted cmp a (prior + 1 - leonardo k') rest'"
        unfolding rest_def by (rule roots_sorted_tl)
      moreover have "roots_sorted cmp a1 (prior + 1 - leonardo k') rest' =
          roots_sorted cmp a (prior + 1 - leonardo k') rest'"
        using p'(2) leonardo_pos [of k'] by (intro roots_sorted_frame fr1) linarith+
      ultimately show ?thesis by simp
    qed
    have S: "roots_sorted cmp a' (itr + 1) (k # rest)" if rs: "roots_sorted cmp a (prior + 1) rest"
    proof -
      have s2: "roots_sorted cmp a' (prior + 1) (k' # rest')"
        using tl1 [OF rs] by (rule S')
      have "\<not> cmp (a ! prior) (a' ! prior)"
        using B'
      proof (elim disjE exE conjE)
        fix j
        assume j: "prior + 1 \<le> j + leonardo k'" "j \<le> prior" "a' ! prior = a1 ! j"
        show ?thesis
        proof (cases "j = prior")
          case True
          with j have "a' ! prior = a ! itr" by (simp add: a1_nth)
          moreover have "\<not> cmp (a ! prior) (a ! itr)"
            using swo_trans [OF swo \<open>cmp (a ! tc) (a ! prior)\<close>] tcp(3) by blast
          ultimately show ?thesis by simp
        next
          case False
          with j p(2) have "a' ! prior = a ! j" by (simp add: a1_nth)
          moreover have "\<not> cmp (a ! prior) (a ! j)"
            using swo hk' p'(1) j(1,2) by (rule is_heap_root_max)
          ultimately show ?thesis by simp
        qed
      next
        assume ne: "rest' \<noteq> []" and e: "a' ! prior = a1 ! (prior - leonardo k')"
        from ne obtain k'' rest'' where r'': "rest' = k'' # rest''" by (cases rest') auto
        have "0 < forest_size rest'" by (simp add: r'')
        with p'(2) leonardo_pos [of k'] have "prior - leonardo k' < prior" by linarith
        with e have "a' ! prior = a ! (prior - leonardo k')" by (simp add: fr1)
        moreover from rs have "\<not> cmp (a ! prior) (a ! (prior - leonardo k'))"
          by (simp add: rest_def r'')
        ultimately show ?thesis by simp
      qed
      with s2 root p(4) show ?thesis by (simp add: rest_def prior_def)
    qed
    have P: "roots_sorted cmp a' (prior + 1 - forest_size pre) suf"
      if split: "rest = pre @ suf" and rs: "roots_sorted cmp a (prior + 1 - forest_size pre) suf" for pre suf
    proof (cases pre)
      case Nil
      with split rs have "roots_sorted cmp a (prior + 1) rest" by simp
      from S' [OF tl1 [OF this]] Nil split show ?thesis by (simp add: rest_def)
    next
      case (Cons x pre')
      with split have x: "x = k'" and r': "rest' = pre' @ suf" by (simp_all add: rest_def)
      have pos: "prior + 1 - forest_size pre = prior + 1 - leonardo k' - forest_size pre'"
        using Cons x by simp
      from r' p'(2) have le: "forest_size suf \<le> prior + 1 - leonardo k' - forest_size pre'"
        by simp
      have "roots_sorted cmp a1 (prior + 1 - leonardo k' - forest_size pre') suf =
          roots_sorted cmp a (prior + 1 - leonardo k' - forest_size pre') suf"
        using le leonardo_pos [of k'] by (intro roots_sorted_frame fr1) linarith+
      with rs pos have "roots_sorted cmp a1 (prior + 1 - leonardo k' - forest_size pre') suf"
        by simp
      from P' [OF r' this] pos show ?thesis by simp
    qed
    have B: "rest \<noteq> [] \<and> a' ! itr = a ! (itr - leonardo k)"
      using root by (simp add: rest_def prior_def)
    from H B S P show ?thesis unfolding rest_def [symmetric] p(4) by blast
  qed
qed

lemma LeonardoHeapRectify_value:
  assumes swo: "strict_weak_ordering cmp" and wf: "shape_wf shape" and o: "orders_of shape = k # rest"
    and sz: "forest_size (k # rest) = e" and len: "e \<le> length a"
    and ch: "children_heaps cmp a (e - 1) k" and fh: "forest_heaps cmp a (e - leonardo k) rest"
  shows "\<exists>a'. LeonardoHeapRectify cmp a e shape = Some a' \<and> length a' = length a \<and>
    mset a' = mset a \<and> (\<forall>i. e \<le> i \<longrightarrow> a' ! i = a ! i) \<and>
    forest_heaps cmp a' e (k # rest) \<and>
    (roots_sorted cmp a (e - leonardo k) rest \<longrightarrow> roots_sorted cmp a' e (k # rest)) \<and>
    (\<forall>pre suf. rest = pre @ suf \<and> roots_sorted cmp a (e - leonardo k - forest_size pre) suf \<longrightarrow>
       roots_sorted cmp a' (e - leonardo k - forest_size pre) suf)"
proof -
  have ne: "orders_of shape \<noteq> []" using o by simp
  from LeonardoHeapRectify_frame [OF wf ne _ len, of cmp] sz o
  obtain a' where a': "LeonardoHeapRectify cmp a e shape = Some a'" "length a' = length a"
    "mset a' = mset a" "\<forall>i. e \<le> i \<longrightarrow> a' ! i = a ! i"
    by auto
  have e0: "0 < e" using sz leonardo_pos [of k] unfolding forest_size_simps by linarith
  with sz len have e: "e = (e - 1) + 1" "e - 1 < length a"
    "forest_size (k # rest) = (e - 1) + 1" "iter_minus e 1 = Some (e - 1)"
    by (simp_all add: iter_minus_def)
  from a'(1) e(4) have run: "LeonardoHeapRectify_loop cmp a (e - 1) shape = Some a'"
    by (simp add: LeonardoHeapRectify_def)
  from fh have fh': "forest_heaps cmp a (e - 1 + 1 - leonardo k) rest" using e(1) by simp
  note v = LeonardoHeapRectify_loop_value [OF swo wf o e(3,2) ch fh' run]
  have ee: "e - 1 + 1 = e" using e(1) by simp
  from v a' show ?thesis unfolding ee by blast
qed

lemma sorted_when_final_preserved:
  "(\<And>pre suf. ks = pre @ suf \<Longrightarrow> roots_sorted cmp a (e - forest_size pre) suf \<Longrightarrow>
      roots_sorted cmp a' (e - forest_size pre) suf) \<Longrightarrow>
   sorted_when_final cmp a n e ks \<Longrightarrow> sorted_when_final cmp a' n e ks"
proof (induction ks arbitrary: e)
  case Nil
  show ?case by simp
next
  case (Cons k ks)
  have "roots_sorted cmp a' e (k # ks)" if "roots_sorted cmp a e (k # ks)"
    using Cons.prems(1) [of "[]" "k # ks"] that by simp
  moreover have "sorted_when_final cmp a' n (e - leonardo k) ks"
  proof (rule Cons.IH)
    show "sorted_when_final cmp a n (e - leonardo k) ks" using Cons.prems(2) by simp
    show "roots_sorted cmp a' (e - leonardo k - forest_size pre) suf"
      if "ks = pre @ suf" "roots_sorted cmp a (e - leonardo k - forest_size pre) suf" for pre suf
      using Cons.prems(1) [of "k # pre" suf] that by simp
  qed
  ultimately show ?case using Cons.prems(2) by simp
qed

lemma sorted_when_final_frame:
  "forest_size ks \<le> e \<Longrightarrow> (\<And>i. i < e \<Longrightarrow> a' ! i = a ! i) \<Longrightarrow>
   sorted_when_final cmp a n e ks \<Longrightarrow> sorted_when_final cmp a' n e ks"
proof (rule sorted_when_final_preserved)
  fix pre suf
  assume a: "forest_size ks \<le> e" "\<And>i. i < e \<Longrightarrow> a' ! i = a ! i" "ks = pre @ suf"
    "roots_sorted cmp a (e - forest_size pre) suf"
  then have "forest_size suf \<le> e - forest_size pre" by simp
  then have "roots_sorted cmp a' (e - forest_size pre) suf = roots_sorted cmp a (e - forest_size pre) suf"
    using a(2) by (intro roots_sorted_frame) simp_all
  with a(4) show "roots_sorted cmp a' (e - forest_size pre) suf" by simp
qed

lemma next_merge_need_le_final_threshold:
  "forest_orders ks \<Longrightarrow> next_merge_need ks \<le> final_threshold ks"
  by (cases ks rule: forest_orders.cases) (auto split: list.splits)

lemma next_merge_need_apart:
  "(case ks of [] \<Rightarrow> True | k' # _ \<Rightarrow> k' \<noteq> Suc k) \<Longrightarrow>
   next_merge_need (k # ks) = (if k \<le> 1 then 2 else leonardo (k - 1) + 1)"
  by (cases ks) auto

lemma next_merge_need_adjacent: "next_merge_need (k # Suc k # ks) = 1"
  by simp

lemma leonardo_ge_3: "2 \<le> k \<Longrightarrow> 3 \<le> leonardo k"
  using leonardo_mono [of 2 k] by (simp add: numeral_2_eq_2)

lemma final_after_single:
  assumes j: "j \<noteq> 0" and k: "k = (if j = 1 then 0 else 1)"
    and ap: "case ks of [] \<Rightarrow> True | k' # _ \<Rightarrow> k' \<noteq> Suc j"
    and r: "r < next_merge_need (k # j # ks)"
  shows "r + 1 < next_merge_need (j # ks)"
proof -
  have n: "next_merge_need (j # ks) = (if j \<le> 1 then 2 else leonardo (j - 1) + 1)"
    using ap by (rule next_merge_need_apart)
  consider "j = 1" | "j = 2" | "3 \<le> j" using j by linarith
  then show ?thesis
  proof cases
    case 1
    with k r n show ?thesis by simp
  next
    case 2
    with k r n show ?thesis by simp
  next
    case 3
    then have "3 \<le> leonardo (j - 1)" by (intro leonardo_ge_3) simp
    moreover from 3 k r have "r < 2" by simp
    ultimately show ?thesis using 3 n by simp
  qed
qed

lemma final_after_merge:
  assumes gap: "sorted_wrt (\<lambda>x y. x + 2 \<le> y) (Suc j # j'' # rest)"
    and r: "r < next_merge_need (Suc (Suc j) # j'' # rest)"
  shows "r + leonardo (Suc (Suc j)) < next_merge_need (j'' # rest)"
proof -
  from gap have j'': "j + 3 \<le> j''" and ap: "case rest of [] \<Rightarrow> True | k' # _ \<Rightarrow> k' \<noteq> Suc j''"
    by (auto split: list.splits)
  then have n: "next_merge_need (j'' # rest) = leonardo (j'' - 1) + 1"
    using next_merge_need_apart [OF ap] by simp
  show ?thesis
  proof (cases "j'' = j + 3")
    case True
    with r have "r = 0" by simp
    with True n show ?thesis by simp
  next
    case False
    with j'' have "leonardo (Suc (Suc (Suc j))) \<le> leonardo (j'' - 1)"
      by (intro leonardo_mono) simp
    moreover from False r have "r < leonardo (Suc j) + 1" by simp
    ultimately show ?thesis using n by simp
  qed
qed

lemma add_orders_cases:
  assumes fo: "forest_orders ks"
  obtains (single) k where "add_orders ks = k # ks" "k \<le> 1"
      "\<And>r. ks \<noteq> [] \<Longrightarrow> r < next_merge_need (k # ks) \<Longrightarrow> r + 1 < next_merge_need ks"
    | (merge) j rest where "ks = j # Suc j # rest" "add_orders ks = Suc (Suc j) # rest"
      "\<And>r. rest \<noteq> [] \<Longrightarrow> r < next_merge_need (Suc (Suc j) # rest) \<Longrightarrow>
         r + leonardo (Suc (Suc j)) < next_merge_need rest"
proof (cases ks rule: add_orders.cases)
  case 1
  then show ?thesis by (intro single [of 1]) simp_all
next
  case (2 j j' ks')
  show ?thesis
  proof (cases "j' = Suc j")
    case True
    show ?thesis
    proof (rule merge [of j ks'])
      show "ks = j # Suc j # ks'" using 2 True by simp
      show "add_orders ks = Suc (Suc j) # ks'" using 2 True by simp
      show "r + leonardo (Suc (Suc j)) < next_merge_need ks'"
        if "ks' \<noteq> []" "r < next_merge_need (Suc (Suc j) # ks')" for r
      proof -
        from that(1) obtain j'' rest where ks': "ks' = j'' # rest" by (cases ks') auto
        from fo 2 True ks' have "sorted_wrt (\<lambda>x y. x + 2 \<le> y) (Suc j # j'' # rest)" by simp
        from final_after_merge [OF this] that(2) ks' show ?thesis by simp
      qed
    qed
  next
    case False
    from fo 2 False have j0: "j \<noteq> 0" by auto
    define k where "k = (if j = 1 then 0 else 1 :: nat)"
    show ?thesis
    proof (rule single [of k])
      show "add_orders ks = k # ks" using 2 False by (simp add: k_def)
      show "k \<le> 1" by (simp add: k_def)
      show "r + 1 < next_merge_need ks" if "r < next_merge_need (k # ks)" for r
        using final_after_single [OF j0 k_def, of "j' # ks'" r] that 2 False by simp
    qed
  qed
next
  case (3 j)
  from fo 3 have j0: "j \<noteq> 0" by simp
  define k where "k = (if j = 1 then 0 else 1 :: nat)"
  show ?thesis
  proof (rule single [of k])
    show "add_orders ks = k # ks" using 3 by (simp add: k_def)
    show "k \<le> 1" by (simp add: k_def)
    show "r + 1 < next_merge_need ks" if "r < next_merge_need (k # ks)" for r
      using final_after_single [OF j0 k_def, of "[]" r] that 3 by simp
  qed
qed

lemma leonardo_le_1: "k \<le> 1 \<Longrightarrow> leonardo k = 1"
  by (cases k rule: leonardo.cases) simp_all

lemma children_heaps_leaf: "k \<le> 1 \<Longrightarrow> children_heaps cmp a root k"
  by (cases k rule: leonardo.cases) simp_all

lemma add_orders_invariant:
  assumes fo: "forest_orders ks" and sz: "forest_size ks = e" and e: "e < n"
    and fh: "forest_heaps cmp a e ks" and sf: "sorted_when_final cmp a n e ks"
  obtains k rest where "add_orders ks = k # rest" "children_heaps cmp a e k"
    "forest_heaps cmp a (e + 1 - leonardo k) rest"
    "sorted_when_final cmp a n (e + 1 - leonardo k) rest"
    "n - (e + 1) < next_merge_need (k # rest) \<Longrightarrow> roots_sorted cmp a (e + 1 - leonardo k) rest"
  using fo
proof (cases rule: add_orders_cases)
  case (single k)
  have l: "e + 1 - leonardo k = e" using single(2) by (simp add: leonardo_le_1)
  show ?thesis
  proof (rule that [of k ks])
    show "add_orders ks = k # ks" by (rule single(1))
    show "children_heaps cmp a e k" using single(2) by (rule children_heaps_leaf)
    show "forest_heaps cmp a (e + 1 - leonardo k) ks" unfolding l by (rule fh)
    show "sorted_when_final cmp a n (e + 1 - leonardo k) ks" unfolding l by (rule sf)
    show "roots_sorted cmp a (e + 1 - leonardo k) ks" if r: "n - (e + 1) < next_merge_need (k # ks)"
    proof (cases ks)
      case Nil
      then show ?thesis by simp
    next
      case (Cons j ks')
      then have "n - (e + 1) + 1 < next_merge_need ks" using r by (intro single(3)) simp_all
      with e have "n - e < next_merge_need ks" by simp
      with sf Cons show ?thesis unfolding l by simp
    qed
  qed
next
  case (merge j rest)
  have lk: "leonardo (Suc (Suc j)) = leonardo (Suc j) + leonardo j + 1" by simp
  from sz merge(1) have ee: "e = leonardo j + leonardo (Suc j) + forest_size rest" by simp
  then have l: "e + 1 - leonardo (Suc (Suc j)) = e - leonardo j - leonardo (Suc j)"
    "e - 1 - leonardo j = e - leonardo j - 1"
    unfolding lk by linarith+
  from fh have f: "is_heap cmp a (e - 1) j" "is_heap cmp a (e - leonardo j - 1) (Suc j)"
    "forest_heaps cmp a (e - leonardo j - leonardo (Suc j)) rest"
    unfolding merge(1) forest_heaps.simps by blast+
  from sf have s: "sorted_when_final cmp a n (e - leonardo j - leonardo (Suc j)) rest"
    unfolding merge(1) sorted_when_final.simps by blast
  show ?thesis
  proof (rule that [of "Suc (Suc j)" rest])
    show "add_orders ks = Suc (Suc j) # rest" by (rule merge(2))
    show "children_heaps cmp a e (Suc (Suc j))"
      unfolding children_heaps.simps l(2) using f(1,2) by simp
    show "forest_heaps cmp a (e + 1 - leonardo (Suc (Suc j))) rest" unfolding l(1) by (rule f(3))
    show "sorted_when_final cmp a n (e + 1 - leonardo (Suc (Suc j))) rest" unfolding l(1) by (rule s)
    show "roots_sorted cmp a (e + 1 - leonardo (Suc (Suc j))) rest"
      if r: "n - (e + 1) < next_merge_need (Suc (Suc j) # rest)"
    proof (cases rest)
      case Nil
      then show ?thesis by simp
    next
      case (Cons j'' rest')
      then have "n - (e + 1) + leonardo (Suc (Suc j)) < next_merge_need rest"
        using r by (intro merge(3)) simp_all
      moreover have "n - (e - leonardo j - leonardo (Suc j)) = n - (e + 1) + leonardo (Suc (Suc j))"
        using ee e unfolding lk by linarith
      ultimately have "n - (e - leonardo j - leonardo (Suc j)) < next_merge_need rest" by simp
      with s Cons show ?thesis unfolding l(1) by simp
    qed
  qed
qed

lemma LeonardoHeapAdd_value:
  assumes swo: "strict_weak_ordering cmp" and inv: "shape_inv shape e" and e: "e < n"
    and h: "n \<le> length a" and b: "e + 1 < leonardo 46"
    and fh: "forest_heaps cmp a e (orders_of shape)"
    and sf: "sorted_when_final cmp a n e (orders_of shape)"
  shows "\<exists>a'. LeonardoHeapAdd cmp a e n shape = Some (a', LeonardoHeapAdd_shape shape) \<and>
    length a' = length a \<and> mset a' = mset a \<and> (\<forall>i. e < i \<longrightarrow> a' ! i = a ! i) \<and>
    forest_heaps cmp a' (e + 1) (orders_of (LeonardoHeapAdd_shape shape)) \<and>
    sorted_when_final cmp a' n (e + 1) (orders_of (LeonardoHeapAdd_shape shape))"
proof -
  define shape' where "shape' = LeonardoHeapAdd_shape shape"
  from inv have wf: "shape_wf shape" and fo: "forest_orders (orders_of shape)"
    and sz: "forest_size (orders_of shape) = e"
    by (simp_all add: shape_inv_def)
  note add = shape_inv_add [OF inv b, folded shape'_def]
  from add(1) have wf': "shape_wf shape'" and fo': "forest_orders (orders_of shape')"
    and sz': "forest_size (orders_of shape') = e + 1"
    by (simp_all add: shape_inv_def)
  from add_orders_invariant [OF fo sz e fh sf]
  obtain k rest where ao: "add_orders (orders_of shape) = k # rest"
    and ch: "children_heaps cmp a e k"
    and fhr: "forest_heaps cmp a (e + 1 - leonardo k) rest"
    and sfr: "sorted_when_final cmp a n (e + 1 - leonardo k) rest"
    and fin: "n - (e + 1) < next_merge_need (k # rest) \<Longrightarrow> roots_sorted cmp a (e + 1 - leonardo k) rest"
    by blast
  from add(2) ao have o': "orders_of shape' = k # rest" by simp
  note c = shape_wf_cons [OF wf' o']
  from sz' o' have szk: "forest_size (k # rest) = e + 1" by simp
  then have fit: "leonardo k \<le> e + 1" and fr: "forest_size rest = e + 1 - leonardo k" by simp_all
  from e h have len: "e + 1 \<le> length a" "e < length a" by simp_all
  have spec: "LeonardoHeapAdd cmp a e n shape =
      map_option (\<lambda>a'. (a', shape'))
        (if n - (e + 1) < final_threshold (k # rest) then LeonardoHeapRectify cmp a (e + 1) shape'
         else RebalanceSingleHeap cmp a e k)"
    using LeonardoHeapAdd_spec [OF wf fo add(3) e, of cmp a] o' c(2)
    by (simp add: spec_heap_add_def shape'_def [symmetric] Let_def)
  show ?thesis
  proof (cases "n - (e + 1) < final_threshold (k # rest)")
    case True
    have ch': "children_heaps cmp a (e + 1 - 1) k" using ch by simp
    from LeonardoHeapRectify_value [OF swo wf' o' szk len(1) ch' fhr]
    obtain a' where a': "LeonardoHeapRectify cmp a (e + 1) shape' = Some a'" "length a' = length a"
      "mset a' = mset a" "\<forall>i. e + 1 \<le> i \<longrightarrow> a' ! i = a ! i"
      "forest_heaps cmp a' (e + 1) (k # rest)"
      "roots_sorted cmp a (e + 1 - leonardo k) rest \<longrightarrow> roots_sorted cmp a' (e + 1) (k # rest)"
      "\<forall>pre suf. rest = pre @ suf \<and> roots_sorted cmp a (e + 1 - leonardo k - forest_size pre) suf \<longrightarrow>
         roots_sorted cmp a' (e + 1 - leonardo k - forest_size pre) suf"
      by blast
    have "sorted_when_final cmp a' n (e + 1 - leonardo k) rest"
      using _ sfr
    proof (rule sorted_when_final_preserved)
      show "roots_sorted cmp a' (e + 1 - leonardo k - forest_size pre) suf"
        if "rest = pre @ suf" "roots_sorted cmp a (e + 1 - leonardo k - forest_size pre) suf" for pre suf
        using a'(7) that by blast
    qed
    with fin a'(6) have "sorted_when_final cmp a' n (e + 1) (k # rest)"
      unfolding sorted_when_final.simps by blast
    with a'(1,2,3,4,5) spec True show ?thesis
      unfolding shape'_def [symmetric] o' by simp
  next
    case False
    have "next_merge_need (k # rest) \<le> final_threshold (k # rest)"
      using fo' unfolding o' by (rule next_merge_need_le_final_threshold)
    with False have nf: "\<not> n - (e + 1) < next_merge_need (k # rest)" by simp
    from RebalanceSingleHeap_frame [OF c(3) fit len(2), of cmp]
    obtain a' where a': "RebalanceSingleHeap cmp a e k = Some a'" "length a' = length a"
      "mset a' = mset a" "\<forall>i. i + leonardo k \<le> e \<or> e < i \<longrightarrow> a' ! i = a ! i"
      by blast
    from swo c(3) fit len(2) ch a'(1) have hk: "is_heap cmp a' e k"
      by (rule RebalanceSingleHeap_heap)
    have same: "a' ! i = a ! i" if "i < e + 1 - leonardo k" for i
      using a'(4) that by simp
    have "forest_heaps cmp a' (e + 1 - leonardo k) rest = forest_heaps cmp a (e + 1 - leonardo k) rest"
      using fr same by (intro forest_heaps_frame) simp_all
    with fhr hk have H: "forest_heaps cmp a' (e + 1) (k # rest)"
      unfolding forest_heaps.simps by simp
    have "sorted_when_final cmp a' n (e + 1 - leonardo k) rest"
      using _ same sfr by (rule sorted_when_final_frame) (simp add: fr)
    with nf have "sorted_when_final cmp a' n (e + 1) (k # rest)"
      unfolding sorted_when_final.simps by blast
    with a' H spec False show ?thesis
      unfolding shape'_def [symmetric] o' by simp
  qed
qed

lemma forest_root_max:
  assumes swo: "strict_weak_ordering cmp"
  shows "forest_heaps cmp a e ks \<Longrightarrow> roots_sorted cmp a e ks \<Longrightarrow> forest_size ks = e \<Longrightarrow>
    i < e \<Longrightarrow> \<not> cmp (a ! (e - 1)) (a ! i)"
proof (induction ks arbitrary: e)
  case Nil
  then show ?case by simp
next
  case (Cons k ks)
  from Cons.prems(1) have hk: "is_heap cmp a (e - 1) k" and ft: "forest_heaps cmp a (e - leonardo k) ks"
    by simp_all
  from Cons.prems(3) have fit: "leonardo k \<le> e" and fs: "forest_size ks = e - leonardo k" by simp_all
  show ?case
  proof (cases "e \<le> i + leonardo k")
    case True
    show ?thesis
      using swo hk
    proof (rule is_heap_root_max)
      show "leonardo k \<le> e - 1 + 1" using fit by simp
      show "e - 1 + 1 \<le> i + leonardo k" using True Cons.prems(4) by simp
      show "i \<le> e - 1" using Cons.prems(4) by simp
    qed
  next
    case False
    then have i: "i < e - leonardo k" by simp
    with fs obtain k' ks' where ks: "ks = k' # ks'" by (cases ks) auto
    have "\<not> cmp (a ! (e - leonardo k - 1)) (a ! i)"
      using ft roots_sorted_tl [OF Cons.prems(2)] fs i by (rule Cons.IH)
    moreover from Cons.prems(2) ks have "\<not> cmp (a ! (e - 1)) (a ! (e - 1 - leonardo k))" by simp
    moreover have "e - 1 - leonardo k = e - leonardo k - 1" by simp
    ultimately show ?thesis using swo_le_trans [OF swo] by metis
  qed
qed

lemma LeonardoHeapRemove_positions:
  fixes e k :: nat
  assumes ek: "e = leonardo k + forest_size rest"
    and r: "leonardo k = leonardo (k - 1) + leonardo (k - 2) + 1"
    and e: "0 < e" "e \<le> length a"
    and l: "leftHeap = e - 1 - 1 - leonardo (k - 2)" and rh: "rightHeap = e - 1 - 1"
  shows "leftHeap + 1 = e - 1 - leonardo (k - 2)" "rightHeap + 1 = e - 1"
      "leftHeap + 1 - leonardo (k - 1) = e - leonardo k"
      "rightHeap + 1 - leonardo (k - 2) = leftHeap + 1"
      "leftHeap + 1 \<le> length a" "rightHeap + 1 \<le> length a" "leftHeap + 1 - 1 = leftHeap"
      "rightHeap + 1 - 1 = rightHeap"
      "forest_size ((k - 1) # rest) = leftHeap + 1"
      "forest_size ((k - 2) # (k - 1) # rest) = rightHeap + 1"
proof -
  obtain A where A: "leonardo (k - 1) = Suc A"
    using leonardo_pos [of "k - 1"] by (cases "leonardo (k - 1)") auto
  obtain B where B: "leonardo (k - 2) = Suc B"
    using leonardo_pos [of "k - 2"] by (cases "leonardo (k - 2)") auto
  have ee: "e = Suc A + Suc B + 1 + forest_size rest" using ek r A B by simp
  have lh: "leftHeap = A + forest_size rest" unfolding l ee B by simp
  have rhh: "rightHeap = A + Suc B + forest_size rest" unfolding rh ee by simp
  show "leftHeap + 1 = e - 1 - leonardo (k - 2)" unfolding lh ee B by simp
  show "rightHeap + 1 = e - 1" unfolding rhh ee by simp
  show "leftHeap + 1 - leonardo (k - 1) = e - leonardo k" unfolding lh ee r A B by simp
  show "rightHeap + 1 - leonardo (k - 2) = leftHeap + 1" unfolding lh rhh B by simp
  show "leftHeap + 1 \<le> length a" using e(2) unfolding lh ee by simp
  show "rightHeap + 1 \<le> length a" using e(2) unfolding rhh ee by simp
  show "leftHeap + 1 - 1 = leftHeap" by simp
  show "rightHeap + 1 - 1 = rightHeap" by simp
  show "forest_size ((k - 1) # rest) = leftHeap + 1" unfolding lh forest_size_simps A by simp
  show "forest_size ((k - 2) # (k - 1) # rest) = rightHeap + 1"
    unfolding rhh forest_size_simps A B by simp
qed

lemma LeonardoHeapRemove_value:
  assumes swo: "strict_weak_ordering cmp" and inv: "shape_inv shape e" and e: "0 < e" "e \<le> length a"
    and fh: "forest_heaps cmp a e (orders_of shape)" and rs: "roots_sorted cmp a e (orders_of shape)"
  shows "\<exists>a' shape'. LeonardoHeapRemove cmp a e shape = Some (a', shape') \<and>
    shape_inv shape' (e - 1) \<and> length a' = length a \<and> mset a' = mset a \<and>
    (\<forall>i. e - 1 \<le> i \<longrightarrow> a' ! i = a ! i) \<and>
    forest_heaps cmp a' (e - 1) (orders_of shape') \<and> roots_sorted cmp a' (e - 1) (orders_of shape')"
proof -
  from inv have wf: "shape_wf shape" and fo: "forest_orders (orders_of shape)"
    and sz: "forest_size (orders_of shape) = e"
    by (simp_all add: shape_inv_def)
  from sz e obtain k rest where o: "orders_of shape = k # rest"
    by (cases "orders_of shape") auto
  note c = shape_wf_cons [OF wf o]
  have ro: "forest_orders (remove_orders (orders_of shape))"
    using fo by (rule forest_orders_remove_orders)
  have rsz: "forest_size (remove_orders (orders_of shape)) = e - 1"
    using forest_size_remove_orders [of "orders_of shape"] o sz by simp
  from fh o have hk: "is_heap cmp a (e - 1) k" and fhr: "forest_heaps cmp a (e - leonardo k) rest"
    by simp_all
  from rs o have rsr: "roots_sorted cmp a (e - leonardo k) rest"
    by (simp add: roots_sorted_tl)
  show ?thesis
  proof (cases "k \<le> 1")
    case True
    from LeonardoHeapRemove_scan_orders [OF wf o] True o ro rsz
    have "shape_inv (LeonardoHeapRemove_scan shape) (e - 1)"
      and "orders_of (LeonardoHeapRemove_scan shape) = rest"
      by (simp_all add: shape_inv_def)
    moreover have "e - leonardo k = e - 1" using True by (simp add: leonardo_le_1)
    ultimately show ?thesis using True c(2) fhr rsr by (simp add: LeonardoHeapRemove_def)
  next
    case False
    then have k2: "2 \<le> k" by simp
    define shape' where "shape' = shape\<lparr>trees := set_bit 1 (set_bit 0 (push_bit 2 (unset_bit 0 (trees shape)))),
                               smallestTreeSize := smallestTreeSize shape - 2\<rparr>"
    define allButLast where "allButLast = shape'\<lparr>smallestTreeSize := smallestTreeSize shape' + 1,
                                   trees := drop_bit 1 (trees shape')\<rparr>"
    note sp = LeonardoHeapRemove_split_orders [OF wf o k2, folded shape'_def, folded allButLast_def]
    have r: "leonardo k = leonardo (k - 1) + leonardo (k - 2) + 1"
      using k2 by (rule leonardo_rec)
    note q = leonardo_pos [of "k - 1"] leonardo_pos [of "k - 2"]
    from sz o have ek: "e = leonardo k + forest_size rest" by simp
    define leftHeap where "leftHeap = e - 1 - 1 - leonardo (k - 2)"
    define rightHeap where "rightHeap = e - 1 - 1"
    have im: "iter_minus e 1 = Some (e - 1)" using e by (simp add: iter_minus_def)
    have fc: "FirstChild (e - 1) k = Some leftHeap"
      unfolding leftHeap_def using k2 c(3) ek r q
      by (intro FirstChild_eq) linarith+
    have sc: "SecondChild (e - 1) = Some rightHeap"
      unfolding rightHeap_def using ek r q
      by (intro SecondChild_eq) linarith
    note pos = LeonardoHeapRemove_positions [OF ek r e leftHeap_def rightHeap_def]
    note l1 = pos(9) and l2 = pos(10)
    from hk k2 have hl: "is_heap cmp a leftHeap (k - 1)" and hr: "is_heap cmp a rightHeap (k - 2)"
      by (simp_all add: is_heap_unfold leftHeap_def rightHeap_def)
    have chl: "children_heaps cmp a (leftHeap + 1 - 1) (k - 1)"
      unfolding pos(7) using hl by (rule is_heap_children)
    have fhl: "forest_heaps cmp a (leftHeap + 1 - leonardo (k - 1)) rest"
      unfolding pos(3) by (rule fhr)
    from LeonardoHeapRectify_value [OF swo sp(4) sp(3) l1 pos(5) chl fhl]
    obtain a1 where a1: "LeonardoHeapRectify cmp a (leftHeap + 1) allButLast = Some a1"
      "length a1 = length a" "mset a1 = mset a" "\<forall>i. leftHeap + 1 \<le> i \<longrightarrow> a1 ! i = a ! i"
      "forest_heaps cmp a1 (leftHeap + 1) ((k - 1) # rest)"
      "roots_sorted cmp a (leftHeap + 1 - leonardo (k - 1)) rest \<longrightarrow>
         roots_sorted cmp a1 (leftHeap + 1) ((k - 1) # rest)"
      by blast
    from a1(6) rsr have rs1: "roots_sorted cmp a1 (leftHeap + 1) ((k - 1) # rest)"
      unfolding pos(3) by simp
    have "is_heap cmp a1 rightHeap (k - 2) = is_heap cmp a rightHeap (k - 2)"
      using a1(4) pos(4) by (intro is_heap_frame) (simp_all; linarith)+
    with hr have "is_heap cmp a1 rightHeap (k - 2)" by simp
    then have chr: "children_heaps cmp a1 (rightHeap + 1 - 1) (k - 2)"
      unfolding pos(8) by (rule is_heap_children)
    have fh2: "forest_heaps cmp a1 (rightHeap + 1 - leonardo (k - 2)) ((k - 1) # rest)"
      unfolding pos(4) by (rule a1(5))
    have len2: "rightHeap + 1 \<le> length a1" using pos(6) a1(2) by simp
    from LeonardoHeapRectify_value [OF swo sp(2) sp(1) l2 len2 chr fh2]
    obtain a2 where a2: "LeonardoHeapRectify cmp a1 (rightHeap + 1) shape' = Some a2"
      "length a2 = length a1" "mset a2 = mset a1" "\<forall>i. rightHeap + 1 \<le> i \<longrightarrow> a2 ! i = a1 ! i"
      "forest_heaps cmp a2 (rightHeap + 1) ((k - 2) # (k - 1) # rest)"
      "roots_sorted cmp a1 (rightHeap + 1 - leonardo (k - 2)) ((k - 1) # rest) \<longrightarrow>
         roots_sorted cmp a2 (rightHeap + 1) ((k - 2) # (k - 1) # rest)"
      by blast
    from a2(6) rs1 have rs2: "roots_sorted cmp a2 (rightHeap + 1) ((k - 2) # (k - 1) # rest)"
      unfolding pos(4) by simp
    have run: "LeonardoHeapRemove cmp a e shape = Some (a2, shape')"
      using False c(2) im fc sc a1(1) a2(1) unfolding allButLast_def shape'_def
      by (simp add: LeonardoHeapRemove_def Let_def)
    have "a2 ! i = a ! i" if "e - 1 \<le> i" for i
    proof -
      from that pos(1,2) have "rightHeap + 1 \<le> i" "leftHeap + 1 \<le> i" by linarith+
      with a2(4) a1(4) show ?thesis by simp
    qed
    moreover have "shape_inv shape' (e - 1)"
      using sp(1,2) ro rsz o k2 by (simp add: shape_inv_def)
    ultimately show ?thesis
      using run a1(2,3) a2(2,3,5) rs2 sp(1) unfolding pos(2) by simp
  qed
qed

section \<open>Smoothsort sorts\<close>

lemma next_merge_need_pos: "ks \<noteq> [] \<Longrightarrow> 0 < next_merge_need ks"
  by (cases ks) (auto split: list.splits)

lemma Smoothsort_build_value:
  assumes swo: "strict_weak_ordering cmp"
  shows "shape_inv shape i \<Longrightarrow> i \<le> stop \<Longrightarrow> stop \<le> n \<Longrightarrow> n \<le> length a \<Longrightarrow>
    stop < leonardo 46 \<Longrightarrow> forest_heaps cmp a i (orders_of shape) \<Longrightarrow>
    sorted_when_final cmp a n i (orders_of shape) \<Longrightarrow>
    \<exists>a' shape'. Smoothsort_build cmp n a i stop shape = Some (a', shape') \<and>
      shape_inv shape' stop \<and> length a' = length a \<and> mset a' = mset a \<and>
      forest_heaps cmp a' stop (orders_of shape') \<and>
      sorted_when_final cmp a' n stop (orders_of shape')"
proof (induction "stop - i" arbitrary: a i shape)
  case 0
  then have "i = stop" by simp
  with 0 show ?case by (simp add: Smoothsort_build_done)
next
  case (Suc d)
  then have lt: "i < n" "i < stop" and b: "i + 1 < leonardo 46" by simp_all
  from LeonardoHeapAdd_value [OF swo Suc.prems(1) lt(1) Suc.prems(4) b Suc.prems(6,7)]
  obtain a1 where a1: "LeonardoHeapAdd cmp a i n shape = Some (a1, LeonardoHeapAdd_shape shape)"
    "length a1 = length a" "mset a1 = mset a"
    "forest_heaps cmp a1 (i + 1) (orders_of (LeonardoHeapAdd_shape shape))"
    "sorted_when_final cmp a1 n (i + 1) (orders_of (LeonardoHeapAdd_shape shape))"
    by blast
  note inv1 = shape_inv_add [OF Suc.prems(1) b]
  have d: "d = stop - (i + 1)" using Suc.hyps(2) by simp
  have "\<exists>a' shape'. Smoothsort_build cmp n a1 (i + 1) stop (LeonardoHeapAdd_shape shape) =
      Some (a', shape') \<and> shape_inv shape' stop \<and> length a' = length a1 \<and> mset a' = mset a1 \<and>
      forest_heaps cmp a' stop (orders_of shape') \<and>
      sorted_when_final cmp a' n stop (orders_of shape')"
    using d Suc.prems(3,4,5) a1(2) lt(2) by (intro Suc.hyps(1) inv1(1) a1(4,5)) simp_all
  with a1(1,2,3) lt(2) show ?case
    by (simp add: Smoothsort_build_step)
qed

lemma LeonardoHeapRemove_sorted_tail:
  assumes swo: "strict_weak_ordering cmp" and inv: "shape_inv shape e" and e: "0 < e" "e \<le> length a"
    and fh: "forest_heaps cmp a e (orders_of shape)" and rs: "roots_sorted cmp a e (orders_of shape)"
    and st: "sorted_tail cmp a e"
  shows "\<exists>a' shape'. LeonardoHeapRemove cmp a e shape = Some (a', shape') \<and>
    shape_inv shape' (e - 1) \<and> length a' = length a \<and> mset a' = mset a \<and>
    (\<forall>i. e - 1 \<le> i \<longrightarrow> a' ! i = a ! i) \<and>
    forest_heaps cmp a' (e - 1) (orders_of shape') \<and> roots_sorted cmp a' (e - 1) (orders_of shape') \<and>
    sorted_tail cmp a' (e - 1)"
proof -
  from LeonardoHeapRemove_value [OF swo inv e fh rs]
  obtain a' shape' where r: "LeonardoHeapRemove cmp a e shape = Some (a', shape')"
    "shape_inv shape' (e - 1)" "length a' = length a" "mset a' = mset a"
    "\<And>i. e - 1 \<le> i \<Longrightarrow> a' ! i = a ! i"
    "forest_heaps cmp a' (e - 1) (orders_of shape')" "roots_sorted cmp a' (e - 1) (orders_of shape')"
    by blast
  from inv have sz: "forest_size (orders_of shape) = e" by (simp add: shape_inv_def)
  have mx: "\<not> cmp (a ! (e - 1)) (a ! i)" if "i < e" for i
    using swo fh rs sz that by (rule forest_root_max)
  from st have srt: "sorted_wrt (\<lambda>x y. \<not> cmp y x) (drop e a)"
    and ps: "\<And>i j. i < e \<Longrightarrow> e \<le> j \<Longrightarrow> j < length a \<Longrightarrow> \<not> cmp (a ! j) (a ! i)"
    by (simp_all add: sorted_tail_def)
  have de: "drop e a' = drop e a"
    using r(3) r(5) by (intro nth_equalityI) simp_all
  have e1: "e - 1 < length a'" "Suc (e - 1) = e" using e r(3) by simp_all
  have "drop (e - 1) a' = a' ! (e - 1) # drop e a'"
    using Cons_nth_drop_Suc [OF e1(1)] e1(2) by simp
  also have "\<dots> = a ! (e - 1) # drop e a" using de r(5) [of "e - 1"] by simp
  finally have d: "drop (e - 1) a' = a ! (e - 1) # drop e a" .
  have "\<not> cmp y (a ! (e - 1))" if "y \<in> set (drop e a)" for y
  proof -
    from that obtain m where "m < length (drop e a)" "y = drop e a ! m"
      by (auto simp: in_set_conv_nth)
    then have "y = a ! (e + m)" "e + m < length a" "e \<le> e + m" using e by simp_all
    with ps [of "e - 1" "e + m"] e(1) show ?thesis by simp
  qed
  with srt d have s1: "sorted_wrt (\<lambda>x y. \<not> cmp y x) (drop (e - 1) a')" by simp
  have s2: "\<not> cmp (a' ! j) (a' ! i)" if "i < e - 1" "e - 1 \<le> j" "j < length a'" for i j
  proof -
    have "\<exists>i0. 0 \<le> i0 \<and> i0 < e - 1 \<and> a' ! i = a ! i0"
      using r(3,4) _ _ _ _ that(1)
    proof (rule frame_elem)
      show "0 \<le> e - 1" by simp
      show "e - 1 \<le> length a" using e by simp
      show "a' ! i = a ! i" if "i < length a" "i < 0 \<or> e - 1 \<le> i" for i
        using that by (intro r(5)) simp
      show "0 \<le> i" by simp
    qed
    then obtain i0 where i0: "i0 < e - 1" "a' ! i = a ! i0" by blast
    have j: "a' ! j = a ! j" using that(2) by (rule r(5))
    show ?thesis
    proof (cases "j = e - 1")
      case True
      with mx [of i0] i0 j show ?thesis by simp
    next
      case False
      with that r(3) i0(1) have "i0 < e" "e \<le> j" "j < length a" by simp_all
      from ps [OF this] i0 j show ?thesis by simp
    qed
  qed
  from s1 s2 have "sorted_tail cmp a' (e - 1)" by (simp add: sorted_tail_def)
  with r show ?thesis by blast
qed

lemma Smoothsort_dequeue_value:
  assumes swo: "strict_weak_ordering cmp"
  shows "shape_inv shape i \<Longrightarrow> stop \<le> i \<Longrightarrow> i \<le> length a \<Longrightarrow>
    forest_heaps cmp a i (orders_of shape) \<Longrightarrow> roots_sorted cmp a i (orders_of shape) \<Longrightarrow>
    sorted_tail cmp a i \<Longrightarrow>
    \<exists>a' shape'. Smoothsort_dequeue cmp a i stop shape = Some (a', shape') \<and>
      shape_inv shape' stop \<and> length a' = length a \<and> mset a' = mset a \<and>
      (\<forall>j. i \<le> j \<longrightarrow> a' ! j = a ! j) \<and>
      forest_heaps cmp a' stop (orders_of shape') \<and> roots_sorted cmp a' stop (orders_of shape') \<and>
      sorted_tail cmp a' stop"
proof (induction "i - stop" arbitrary: a i shape)
  case 0
  then have "i = stop" by simp
  with 0 show ?case by (simp add: Smoothsort_dequeue_done)
next
  case (Suc d)
  then have lt: "0 < i" "stop < i" by simp_all
  from LeonardoHeapRemove_sorted_tail [OF swo Suc.prems(1) lt(1) Suc.prems(3,4,5,6)]
  obtain a1 shape1 where a1: "LeonardoHeapRemove cmp a i shape = Some (a1, shape1)"
    "shape_inv shape1 (i - 1)" "length a1 = length a" "mset a1 = mset a"
    "\<And>j. i - 1 \<le> j \<Longrightarrow> a1 ! j = a ! j"
    "forest_heaps cmp a1 (i - 1) (orders_of shape1)" "roots_sorted cmp a1 (i - 1) (orders_of shape1)"
    "sorted_tail cmp a1 (i - 1)"
    by blast
  have d: "d = i - 1 - stop" using Suc.hyps(2) by simp
  have "\<exists>a' shape'. Smoothsort_dequeue cmp a1 (i - 1) stop shape1 = Some (a', shape') \<and>
      shape_inv shape' stop \<and> length a' = length a1 \<and> mset a' = mset a1 \<and>
      (\<forall>j. i - 1 \<le> j \<longrightarrow> a' ! j = a1 ! j) \<and>
      forest_heaps cmp a' stop (orders_of shape') \<and> roots_sorted cmp a' stop (orders_of shape') \<and>
      sorted_tail cmp a' stop"
    using d lt(2) Suc.prems(3) a1(3) by (intro Suc.hyps(1) a1(2,6,7,8)) simp_all
  then obtain a' shape' where r: "Smoothsort_dequeue cmp a1 (i - 1) stop shape1 = Some (a', shape')"
    "shape_inv shape' stop" "length a' = length a1" "mset a' = mset a1"
    "\<And>j. i - 1 \<le> j \<Longrightarrow> a' ! j = a1 ! j"
    "forest_heaps cmp a' stop (orders_of shape')" "roots_sorted cmp a' stop (orders_of shape')"
    "sorted_tail cmp a' stop"
    by blast
  have "a' ! j = a ! j" if "i \<le> j" for j
    using r(5) [of j] a1(5) [of j] that by simp
  with a1(1,3,4) r lt(2) show ?case
    by (simp add: Smoothsort_dequeue_step)
qed


lemma sorted_tail_end: "length a \<le> e \<Longrightarrow> sorted_tail cmp a e"
  by (auto simp: sorted_tail_def)

lemma Smoothsort_build_run:
  assumes swo: "strict_weak_ordering cmp" and n: "length a < leonardo 46" and m: "m \<le> length a"
  shows "\<exists>a1 shape1. Smoothsort_build cmp (length a) a 0 m \<lparr>trees = 0, smallestTreeSize = 0\<rparr> =
      Some (a1, shape1) \<and> shape_inv shape1 m \<and> length a1 = length a \<and> mset a1 = mset a \<and>
      forest_heaps cmp a1 m (orders_of shape1) \<and>
      (m = length a \<longrightarrow> roots_sorted cmp a1 m (orders_of shape1))"
proof -
  have o: "orders_of \<lparr>trees = 0, smallestTreeSize = 0\<rparr> = []" by (simp add: orders_of_def)
  have "\<exists>a' shape'. Smoothsort_build cmp (length a) a 0 m \<lparr>trees = 0, smallestTreeSize = 0\<rparr> =
      Some (a', shape') \<and> shape_inv shape' m \<and> length a' = length a \<and> mset a' = mset a \<and>
      forest_heaps cmp a' m (orders_of shape') \<and>
      sorted_when_final cmp a' (length a) m (orders_of shape')"
  proof (rule Smoothsort_build_value [OF swo shape_inv_empty])
    show "0 \<le> m" by simp
    show "m \<le> length a" by (rule m)
    show "length a \<le> length a" by simp
    show "m < leonardo 46" using m n by simp
    show "forest_heaps cmp a 0 (orders_of \<lparr>trees = 0, smallestTreeSize = 0\<rparr>)"
      by (simp add: o)
    show "sorted_when_final cmp a (length a) 0 (orders_of \<lparr>trees = 0, smallestTreeSize = 0\<rparr>)"
      by (simp add: o)
  qed
  then obtain a1 shape1 where r: "Smoothsort_build cmp (length a) a 0 m
      \<lparr>trees = 0, smallestTreeSize = 0\<rparr> = Some (a1, shape1)" "shape_inv shape1 m"
    "length a1 = length a" "mset a1 = mset a" "forest_heaps cmp a1 m (orders_of shape1)"
    "sorted_when_final cmp a1 (length a) m (orders_of shape1)"
    by blast
  have "roots_sorted cmp a1 m (orders_of shape1)" if "m = length a"
  proof (cases "orders_of shape1")
    case Nil
    then show ?thesis by simp
  next
    case (Cons k ks)
    then have "0 < next_merge_need (orders_of shape1)" by (intro next_merge_need_pos) simp
    with r(6) that Cons show ?thesis by simp
  qed
  with r show ?thesis by blast
qed

lemma Smoothsort_sorts_aux:
  assumes swo: "strict_weak_ordering cmp" and n: "length a < leonardo 46"
  shows "\<exists>a'. Smoothsort cmp a = Some a' \<and> mset a' = mset a \<and> sorted_wrt (\<lambda>x y. \<not> cmp y x) a'"
proof (cases "length a = 0 \<or> length a = 1")
  case True
  then have "sorted_wrt (\<lambda>x y. \<not> cmp y x) a"
    by (cases a) (auto simp: length_Suc_conv)
  with True show ?thesis by (simp add: Smoothsort_def)
next
  case False
  from Smoothsort_build_run [OF swo n order_refl]
  obtain a1 shape1 where b: "Smoothsort_build cmp (length a) a 0 (length a)
      \<lparr>trees = 0, smallestTreeSize = 0\<rparr> = Some (a1, shape1)" "shape_inv shape1 (length a)"
    "length a1 = length a" "mset a1 = mset a" "forest_heaps cmp a1 (length a) (orders_of shape1)"
    "roots_sorted cmp a1 (length a) (orders_of shape1)"
    by blast
  have st: "sorted_tail cmp a1 (length a)" using b(3) by (intro sorted_tail_end) simp
  have le: "length a \<le> length a1" using b(3) by simp
  from Smoothsort_dequeue_value [OF swo b(2) _ le b(5,6) st, of 0]
  obtain a2 shape2 where d: "Smoothsort_dequeue cmp a1 (length a) 0 shape1 = Some (a2, shape2)"
    "mset a2 = mset a1" "sorted_tail cmp a2 0"
    by auto
  from d(3) have "sorted_wrt (\<lambda>x y. \<not> cmp y x) a2" by (simp add: sorted_tail_def)
  with b(1,4) d(1,2) False show ?thesis by (simp add: Smoothsort_def)
qed


lemma Smoothsort_dequeue_run:
  assumes swo: "strict_weak_ordering cmp" and n: "length a < leonardo 46" and m: "m \<le> length a"
  shows "\<exists>a1 shape1 b sh.
    Smoothsort_build cmp (length a) a 0 (length a) \<lparr>trees = 0, smallestTreeSize = 0\<rparr> =
      Some (a1, shape1) \<and>
    Smoothsort_dequeue cmp a1 (length a) m shape1 = Some (b, sh) \<and>
    shape_inv sh m \<and> forest_heaps cmp b m (orders_of sh) \<and> roots_sorted cmp b m (orders_of sh)"
proof -
  from Smoothsort_build_run [OF swo n order_refl]
  obtain a1 shape1 where b: "Smoothsort_build cmp (length a) a 0 (length a)
      \<lparr>trees = 0, smallestTreeSize = 0\<rparr> = Some (a1, shape1)" "shape_inv shape1 (length a)"
    "length a1 = length a" "mset a1 = mset a" "forest_heaps cmp a1 (length a) (orders_of shape1)"
    "roots_sorted cmp a1 (length a) (orders_of shape1)"
    by blast
  have st: "sorted_tail cmp a1 (length a)" using b(3) by (intro sorted_tail_end) simp
  have le: "length a \<le> length a1" using b(3) by simp
  from Smoothsort_dequeue_value [OF swo b(2) m le b(5,6) st] b(1)
  show ?thesis by blast
qed

lemma strict_weak_ordering_less: "strict_weak_ordering ((<) :: 'a :: linorder \<Rightarrow> 'a \<Rightarrow> bool)"
  by (auto simp: strict_weak_ordering_def)

text \<open>
  Claim C1, as stated, holds for every finite sequence. On \<open>L(46) = 5942430145\<close> equal
  elements, whose only permutation is the sequence itself, \<open>Smoothsort\<close> does not return
  it: the run ends in the read of \<open>kLeonardoNumbers[46]\<close>, past the end of the table.
\<close>

theorem Smoothsort_sorts_counterexample:
  "Smoothsort (<) (replicate 5942430145 (7 :: int)) \<noteq> Some (replicate 5942430145 7)"
proof -
  have "Smoothsort (<) (replicate 5942430145 (7 :: int)) = None"
    by (rule Smoothsort_order_46) (simp only: length_replicate leonardo_46)
  then show ?thesis by simp
qed

text \<open>
  Claim C1, amended: for every sequence of fewer than \<open>L(46) = 5942430145\<close> elements (so
  for every length a 32-bit \<open>size_t\<close> can hold) and every comparator that is a strict weak
  ordering (as every strict total order is), \<open>Smoothsort\<close> returns a permutation of the
  sequence in non-descending order: no element precedes an earlier one.
\<close>

theorem Smoothsort_sorts:
  assumes "strict_weak_ordering cmp" and "length a < 5942430145"
  shows "\<exists>a'. Smoothsort cmp a = Some a' \<and> mset a' = mset a \<and>
    sorted_wrt (\<lambda>x y. \<not> cmp y x) a'"
proof -
  from assms(2) have "length a < leonardo 46" by (simp only: leonardo_46)
  with assms(1) show ?thesis by (rule Smoothsort_sorts_aux)
qed

theorem Smoothsort_sorts_witness:
  "Smoothsort (<) [5, 3, 4, 1, 2 :: nat] = Some [1, 2, 3, 4, 5] \<and>
   mset [1, 2, 3, 4, 5 :: nat] = mset [5, 3, 4, 1, 2] \<and>
   sorted_wrt (\<lambda>x y. \<not> y < x) [1, 2, 3, 4, 5 :: nat]"
proof -
  have "Smoothsort (<) [5, 3, 4, 1, 2 :: nat] = Some [1, 2, 3, 4, 5]"
    by code_simp
  with Smoothsort_sorts [OF strict_weak_ordering_less, of "[5, 3, 4, 1, 2 :: nat]"]
  show ?thesis by simp
qed

text \<open>
  Claim C2, as stated, has the roots in non-increasing order from left to right after
  every insert and remove. After the two inserts of a run on \<open>[1, 2]\<close> the forest has a
  tree of order 1 with root 1 and, to its right, a tree of order 0 with root 2: the roots
  read from left to right increase. And the order the code keeps (non-descending) does not
  hold after every insert either: after the first two inserts of a run on \<open>[2, 1, 3]\<close> the
  roots are 2 and 1, since an insert whose tree a later insert merges only rebalances that
  tree.
\<close>

theorem Smoothsort_roots_counterexample:
  "Smoothsort_build (<) 2 [1, 2 :: nat] 0 2 \<lparr>trees = 0, smallestTreeSize = 0\<rparr>
     = Some ([1, 2], \<lparr>trees = 3, smallestTreeSize = 0\<rparr>) \<and>
   orders_of \<lparr>trees = 3, smallestTreeSize = 0\<rparr> = [0, 1] \<and>
   \<not> roots_as_claimed (<) [1, 2 :: nat] 2 [0, 1] \<and>
   Smoothsort_build (<) 3 [2, 1, 3 :: nat] 0 2 \<lparr>trees = 0, smallestTreeSize = 0\<rparr>
     = Some ([2, 1, 3], \<lparr>trees = 3, smallestTreeSize = 0\<rparr>) \<and>
   \<not> roots_sorted (<) [2, 1, 3 :: nat] 2 [0, 1]"
  by code_simp

text \<open>
  Claim C2, amended: in a run of \<open>Smoothsort\<close> on a sequence of fewer than \<open>L(46)\<close>
  elements with a strict weak ordering, after every completed insert (the first \<open>m\<close>
  inserts, for every \<open>m\<close>) the shape describes a Leonardo forest over the first \<open>m\<close>
  elements and every tree of it is a max-heap; after the last insert, and after every
  completed remove (the forest then covering the first \<open>m\<close> elements), moreover the roots
  read from left to right are in non-descending order.
\<close>

theorem Smoothsort_forest_invariant:
  assumes "strict_weak_ordering cmp" and "length a < 5942430145" and "m \<le> length a"
  shows "(\<exists>a1 shape1.
            Smoothsort_build cmp (length a) a 0 m \<lparr>trees = 0, smallestTreeSize = 0\<rparr> =
              Some (a1, shape1) \<and>
            shape_inv shape1 m \<and> forest_heaps cmp a1 m (orders_of shape1) \<and>
            (m = length a \<longrightarrow> roots_sorted cmp a1 m (orders_of shape1))) \<and>
         (\<exists>a1 shape1 b sh.
            Smoothsort_build cmp (length a) a 0 (length a) \<lparr>trees = 0, smallestTreeSize = 0\<rparr> =
              Some (a1, shape1) \<and>
            Smoothsort_dequeue cmp a1 (length a) m shape1 = Some (b, sh) \<and>
            shape_inv sh m \<and> forest_heaps cmp b m (orders_of sh) \<and>
            roots_sorted cmp b m (orders_of sh))"
proof -
  from assms(2) have n: "length a < leonardo 46" by (simp only: leonardo_46)
  from Smoothsort_build_run [OF assms(1) n assms(3)]
  have "\<exists>a1 shape1.
      Smoothsort_build cmp (length a) a 0 m \<lparr>trees = 0, smallestTreeSize = 0\<rparr> =
        Some (a1, shape1) \<and>
      shape_inv shape1 m \<and> forest_heaps cmp a1 m (orders_of shape1) \<and>
      (m = length a \<longrightarrow> roots_sorted cmp a1 m (orders_of shape1))"
    by blast
  with Smoothsort_dequeue_run [OF assms(1) n assms(3)] show ?thesis by blast
qed

theorem Smoothsort_forest_invariant_witness:
  "(\<exists>a1 shape1.
      Smoothsort_build (<) 5 [5, 3, 4, 1, 2 :: nat] 0 3 \<lparr>trees = 0, smallestTreeSize = 0\<rparr> =
        Some (a1, shape1) \<and>
      shape_inv shape1 3 \<and> forest_heaps (<) a1 3 (orders_of shape1)) \<and>
   (\<exists>a1 shape1 b sh.
      Smoothsort_build (<) 5 [5, 3, 4, 1, 2 :: nat] 0 5 \<lparr>trees = 0, smallestTreeSize = 0\<rparr> =
        Some (a1, shape1) \<and>
      Smoothsort_dequeue (<) a1 5 3 shape1 = Some (b, sh) \<and>
      shape_inv sh 3 \<and> forest_heaps (<) b 3 (orders_of sh) \<and> roots_sorted (<) b 3 (orders_of sh))"
proof -
  have l: "length [5, 3, 4, 1, 2 :: nat] = 5" by simp
  from Smoothsort_forest_invariant [OF strict_weak_ordering_less, of "[5, 3, 4, 1, 2 :: nat]" 3,
      unfolded l]
  show ?thesis by simp
qed



end
